theory Spec2Isabelle
  imports Main "HOL-Library.Word"
begin

section \<open>Data model (config/config.go, handler.go)\<close>

text \<open>
  Go's fixed-width unsigned integers are words: arithmetic wraps, \<open>unat\<close> reads the
  value, and a conversion \<open>uint16(x)\<close> of an \<open>int\<close> is \<open>word_of_int x\<close> (truncation
  modulo \<open>2 ^ 16\<close>). Go's \<open>int\<close> is wide enough for every sum formed here
  (at most \<open>2 * 65535\<close>), so it is modelled by \<open>int\<close> and \<open>nat\<close>.
\<close>

type_synonym uint8 = "8 word"
type_synonym uint16 = "16 word"
type_synonym uint64 = "64 word"

record RegisterValue =
  Type :: string
  Address :: uint16
  Value :: uint16

record ModbusConfig =
  UnitID :: uint8
  MaxRegisters :: int
  CounterAddress :: uint16
  UpdateInterval :: int
  InitialData :: "RegisterValue list"

text \<open>
  The logger is an external collaborator. The model records the calls made on it, in
  order, as level and message; the structured payload of a call is left out.
\<close>

datatype level = Debug | Info | Warn | Error

type_synonym log_entry = "level \<times> string"

record Stats =
  RequestsHandled :: uint64
  Errors :: uint64
  StartTime :: nat

text \<open>
  The handler object. The mutex \<open>mu\<close> is not modelled: every operation below is one
  sequential run of the method's body.
\<close>

record ModbusHandler =
  config :: ModbusConfig
  logger :: "log_entry list"
  holdingRegs :: "uint16 list"
  inputRegs :: "uint16 list"
  coils :: "bool list"
  discreteInputs :: "bool list"
  counter :: uint16
  stats :: Stats

text \<open>
  Requests of the modbus library. \<open>InputRegistersRequest\<close> and
  \<open>DiscreteInputsRequest\<close> carry unit id, address and quantity;
  \<open>HoldingRegistersRequest\<close> and \<open>CoilsRequest\<close> add the write flag and the
  values to write.
\<close>

record ReadRequest =
  UnitId :: uint8
  Addr :: uint16
  Quantity :: uint16

record 'a WriteRequest = ReadRequest +
  IsWrite :: bool
  Args :: "'a list"

type_synonym HoldingRegistersRequest = "uint16 WriteRequest"
type_synonym CoilsRequest = "bool WriteRequest"

text \<open>
  What a call can end with other than its result: the two exception values the handlers
  return, and the two runtime panics the code can reach (an index out of range, and
  \<open>make\<close> with a negative length).
\<close>

datatype error =
  ErrIllegalFunction
| ErrIllegalDataAddress
| PanicIndexOutOfRange
| PanicMakeSliceLen

fun is_panic :: "error \<Rightarrow> bool" where
  "is_panic PanicIndexOutOfRange = True"
| "is_panic PanicMakeSliceLen = True"
| "is_panic _ = False"

definition log_call :: "level \<Rightarrow> string \<Rightarrow> ModbusHandler \<Rightarrow> ModbusHandler" where
  "log_call l m h = h\<lparr>logger := logger h @ [(l, m)]\<rparr>"

section \<open>Construction (NewModbusHandler)\<close>

text \<open>
  One iteration of the loop over \<open>config.InitialData\<close>. Every slice store is
  guarded as Go guards it: an index outside the slice is a panic.
\<close>

definition seed_entry :: "ModbusHandler \<Rightarrow> RegisterValue \<Rightarrow> error + ModbusHandler" where
  "seed_entry h data =
     (if Address data \<ge> (word_of_int (MaxRegisters (config h)) :: uint16) then
        Inr (log_call Warn ''Initial data address out of bounds, skipping'' h)
      else if Type data = ''holding'' then
        (if unat (Address data) < length (holdingRegs h)
         then Inr (h\<lparr>holdingRegs := (holdingRegs h)[unat (Address data) := Value data]\<rparr>)
         else Inl PanicIndexOutOfRange)
      else if Type data = ''input'' then
        (if unat (Address data) < length (inputRegs h)
         then Inr (h\<lparr>inputRegs := (inputRegs h)[unat (Address data) := Value data]\<rparr>)
         else Inl PanicIndexOutOfRange)
      else if Type data = ''coil'' then
        (if unat (Address data) < length (coils h)
         then Inr (h\<lparr>coils := (coils h)[unat (Address data) := (Value data \<noteq> 0)]\<rparr>)
         else Inl PanicIndexOutOfRange)
      else if Type data = ''discrete'' then
        (if unat (Address data) < length (discreteInputs h)
         then Inr (h\<lparr>discreteInputs :=
                       (discreteInputs h)[unat (Address data) := (Value data \<noteq> 0)]\<rparr>)
         else Inl PanicIndexOutOfRange)
      else
        Inr (log_call Warn ''Unknown initial data type in config, skipping'' h))"

fun seed_loop :: "ModbusHandler \<Rightarrow> RegisterValue list \<Rightarrow> error + ModbusHandler" where
  "seed_loop h [] = Inr h"
| "seed_loop h (data # rest) =
     (case seed_entry h data of
        Inl e \<Rightarrow> Inl e
      | Inr h' \<Rightarrow> seed_loop h' rest)"

text \<open>
  The constructor takes the logger's record so far and the value of \<open>time.Now()\<close>.
  It returns the handler, or the panic that ends it. The memory limit of \<open>make\<close>
  is not modelled: every non-negative length is allocated.
\<close>

definition NewModbusHandler ::
  "ModbusConfig \<Rightarrow> log_entry list \<Rightarrow> nat \<Rightarrow> error + ModbusHandler" where
  "NewModbusHandler cfg lg now =
     (if MaxRegisters cfg < 0 then Inl PanicMakeSliceLen
      else
        let n = nat (MaxRegisters cfg);
            h = \<lparr>config = cfg, logger = lg,
                 holdingRegs = replicate n 0, inputRegs = replicate n 0,
                 coils = replicate n False, discreteInputs = replicate n False,
                 counter = 0,
                 stats = \<lparr>RequestsHandled = 0, Errors = 0, StartTime = now\<rparr>\<rparr>
        in case seed_loop h (InitialData cfg) of
             Inl e \<Rightarrow> Inl e
           | Inr h1 \<Rightarrow>
               if unat (CounterAddress cfg) < length (holdingRegs h1)
               then Inr (log_call Info ''Handler initialized''
                          (h1\<lparr>holdingRegs := (holdingRegs h1)[unat (CounterAddress cfg) := 0]\<rparr>))
               else Inl PanicIndexOutOfRange)"

section \<open>The counter (UpdateCounter)\<close>

text \<open>
  The state is returned in every case; on a panic it is the state reached when the
  panic is raised (the counter is already incremented there).
\<close>

definition UpdateCounter :: "ModbusHandler \<Rightarrow> ModbusHandler \<times> (error + unit)" where
  "UpdateCounter h =
     (let h1 = h\<lparr>counter := counter h + 1\<rparr>;
          ca = unat (CounterAddress (config h1))
      in if \<not> ca < length (holdingRegs h1) then (h1, Inl PanicIndexOutOfRange)
         else
           let h2 = h1\<lparr>holdingRegs := (holdingRegs h1)[ca := counter h1]\<rparr>;
               h3 = (if counter h2 = 0
                     then (log_call Warn ''Counter overflow, resetting'' h2)
                            \<lparr>counter := 1, holdingRegs := (holdingRegs h2)[ca := 1]\<rparr>
                     else h2)
           in (log_call Debug ''Counter updated'' h3, Inr ()))"

definition GetStats :: "ModbusHandler \<Rightarrow> Stats" where
  "GetStats h =
     \<lparr>RequestsHandled = RequestsHandled (stats h),
      Errors = Errors (stats h),
      StartTime = StartTime (stats h)\<rparr>"

section \<open>Request handlers\<close>

definition count_request :: "ModbusHandler \<Rightarrow> ModbusHandler" where
  "count_request h = h\<lparr>stats := (stats h)\<lparr>RequestsHandled := RequestsHandled (stats h) + 1\<rparr>\<rparr>"

definition count_error :: "ModbusHandler \<Rightarrow> ModbusHandler" where
  "count_error h = h\<lparr>stats := (stats h)\<lparr>Errors := Errors (stats h) + 1\<rparr>\<rparr>"

text \<open>
  Body of the loop of \<open>HandleHoldingRegisters\<close> at position \<open>i\<close>: the state after
  the iteration and the value appended to the result, or the panic of an index
  out of range (\<open>h.holdingRegs[addr]\<close> or \<open>req.Args[i]\<close>).
\<close>

definition holding_body ::
  "ModbusHandler \<Rightarrow> HoldingRegistersRequest \<Rightarrow> nat \<Rightarrow> ModbusHandler \<times> (error + uint16)" where
  "holding_body h req i =
     (let addr = unat (Addr req) + i in
      if IsWrite req \<and> (word_of_nat addr :: uint16) \<noteq> CounterAddress (config h) then
        (if \<not> addr < length (holdingRegs h) then (h, Inl PanicIndexOutOfRange)
         else if \<not> i < length (Args req) then (h, Inl PanicIndexOutOfRange)
         else
           let h' = log_call Debug ''Register written''
                      (h\<lparr>holdingRegs := (holdingRegs h)[addr := Args req ! i]\<rparr>)
           in (h', Inr (holdingRegs h' ! addr)))
      else if \<not> addr < length (holdingRegs h) then (h, Inl PanicIndexOutOfRange)
      else (h, Inr (holdingRegs h ! addr)))"

function holding_loop ::
  "ModbusHandler \<Rightarrow> HoldingRegistersRequest \<Rightarrow> nat \<Rightarrow> uint16 list
     \<Rightarrow> ModbusHandler \<times> (error + uint16 list)" where
  "holding_loop h req i res =
     (if i < unat (Quantity req) then
        (case holding_body h req i of
           (h', Inl e) \<Rightarrow> (h', Inl e)
         | (h', Inr v) \<Rightarrow> holding_loop h' req (i + 1) (res @ [v]))
      else (h, Inr res))"
  by pat_completeness auto
termination
  by (relation "measure (\<lambda>(h, req, i, res). unat (Quantity req) - i)") auto

declare holding_loop.simps [simp del]

definition HandleHoldingRegisters ::
  "ModbusHandler \<Rightarrow> HoldingRegistersRequest \<Rightarrow> ModbusHandler \<times> (error + uint16 list)" where
  "HandleHoldingRegisters h0 req =
     (let h = count_request h0 in
      if UnitId req \<noteq> UnitID (config h) then
        (log_call Warn ''Invalid unit ID'' (count_error h), Inl ErrIllegalFunction)
      else if int (unat (Addr req)) + int (unat (Quantity req)) > int (length (holdingRegs h)) then
        (log_call Warn ''Address out of bounds'' (count_error h), Inl ErrIllegalDataAddress)
      else
        (case holding_loop h req 0 [] of
           (h', Inl e) \<Rightarrow> (h', Inl e)
         | (h', Inr res) \<Rightarrow> (log_call Debug ''Holding registers handled'' h', Inr res)))"

text \<open>The read-only loops of \<open>HandleInputRegisters\<close> and \<open>HandleDiscreteInputs\<close>.\<close>

function read_loop :: "'a list \<Rightarrow> ReadRequest \<Rightarrow> nat \<Rightarrow> 'a list \<Rightarrow> error + 'a list" where
  "read_loop tbl req i res =
     (if i < unat (Quantity req) then
        (if unat (Addr req) + i < length tbl
         then read_loop tbl req (i + 1) (res @ [tbl ! (unat (Addr req) + i)])
         else Inl PanicIndexOutOfRange)
      else Inr res)"
  by pat_completeness auto
termination
  by (relation "measure (\<lambda>(tbl, req, i, res). unat (Quantity req) - i)") auto

declare read_loop.simps [simp del]

definition HandleInputRegisters ::
  "ModbusHandler \<Rightarrow> ReadRequest \<Rightarrow> ModbusHandler \<times> (error + uint16 list)" where
  "HandleInputRegisters h0 req =
     (let h = count_request h0 in
      if UnitId req \<noteq> UnitID (config h) then (count_error h, Inl ErrIllegalFunction)
      else if int (unat (Addr req)) + int (unat (Quantity req)) > int (length (inputRegs h)) then
        (count_error h, Inl ErrIllegalDataAddress)
      else (h, read_loop (inputRegs h) req 0 []))"

definition coils_body ::
  "ModbusHandler \<Rightarrow> CoilsRequest \<Rightarrow> nat \<Rightarrow> ModbusHandler \<times> (error + bool)" where
  "coils_body h req i =
     (let addr = unat (Addr req) + i in
      if IsWrite req then
        (if \<not> i < length (Args req) then (h, Inl PanicIndexOutOfRange)
         else if \<not> addr < length (coils h) then (h, Inl PanicIndexOutOfRange)
         else
           let h' = h\<lparr>coils := (coils h)[addr := Args req ! i]\<rparr>
           in (h', Inr (coils h' ! addr)))
      else if \<not> addr < length (coils h) then (h, Inl PanicIndexOutOfRange)
      else (h, Inr (coils h ! addr)))"

function coils_loop ::
  "ModbusHandler \<Rightarrow> CoilsRequest \<Rightarrow> nat \<Rightarrow> bool list \<Rightarrow> ModbusHandler \<times> (error + bool list)" where
  "coils_loop h req i res =
     (if i < unat (Quantity req) then
        (case coils_body h req i of
           (h', Inl e) \<Rightarrow> (h', Inl e)
         | (h', Inr v) \<Rightarrow> coils_loop h' req (i + 1) (res @ [v]))
      else (h, Inr res))"
  by pat_completeness auto
termination
  by (relation "measure (\<lambda>(h, req, i, res). unat (Quantity req) - i)") auto

declare coils_loop.simps [simp del]

definition HandleCoils ::
  "ModbusHandler \<Rightarrow> CoilsRequest \<Rightarrow> ModbusHandler \<times> (error + bool list)" where
  "HandleCoils h0 req =
     (let h = count_request h0 in
      if UnitId req \<noteq> UnitID (config h) then (count_error h, Inl ErrIllegalFunction)
      else if int (unat (Addr req)) + int (unat (Quantity req)) > int (length (coils h)) then
        (count_error h, Inl ErrIllegalDataAddress)
      else coils_loop h req 0 [])"

definition HandleDiscreteInputs ::
  "ModbusHandler \<Rightarrow> ReadRequest \<Rightarrow> ModbusHandler \<times> (error + bool list)" where
  "HandleDiscreteInputs h0 req =
     (let h = count_request h0 in
      if UnitId req \<noteq> UnitID (config h) then (count_error h, Inl ErrIllegalFunction)
      else if int (unat (Addr req)) + int (unat (Quantity req)) > int (length (discreteInputs h))
      then (count_error h, Inl ErrIllegalDataAddress)
      else (h, read_loop (discreteInputs h) req 0 []))"

section \<open>Requests of any table kind\<close>

text \<open>
  The transport library calls one of the four handler methods, chosen by the function
  code of the decoded request. \<open>handle\<close> is that choice, so that one statement can
  range over the four table kinds.
\<close>

datatype request =
  HoldingRegisters HoldingRegistersRequest
| InputRegisters ReadRequest
| Coils CoilsRequest
| DiscreteInputs ReadRequest

datatype response = Registers "uint16 list" | Bits "bool list"

fun handle :: "ModbusHandler \<Rightarrow> request \<Rightarrow> ModbusHandler \<times> (error + response)" where
  "handle h (HoldingRegisters r) = map_prod id (map_sum id Registers) (HandleHoldingRegisters h r)"
| "handle h (InputRegisters r) = map_prod id (map_sum id Registers) (HandleInputRegisters h r)"
| "handle h (Coils r) = map_prod id (map_sum id Bits) (HandleCoils h r)"
| "handle h (DiscreteInputs r) = map_prod id (map_sum id Bits) (HandleDiscreteInputs h r)"

fun unit_of :: "request \<Rightarrow> uint8" where
  "unit_of (HoldingRegisters r) = UnitId r"
| "unit_of (InputRegisters r) = UnitId r"
| "unit_of (Coils r) = UnitId r"
| "unit_of (DiscreteInputs r) = UnitId r"

fun addr_of :: "request \<Rightarrow> uint16" where
  "addr_of (HoldingRegisters r) = Addr r"
| "addr_of (InputRegisters r) = Addr r"
| "addr_of (Coils r) = Addr r"
| "addr_of (DiscreteInputs r) = Addr r"

fun quantity_of :: "request \<Rightarrow> uint16" where
  "quantity_of (HoldingRegisters r) = Quantity r"
| "quantity_of (InputRegisters r) = Quantity r"
| "quantity_of (Coils r) = Quantity r"
| "quantity_of (DiscreteInputs r) = Quantity r"

text \<open>Length of the table a request targets.\<close>

fun table_len :: "ModbusHandler \<Rightarrow> request \<Rightarrow> nat" where
  "table_len h (HoldingRegisters r) = length (holdingRegs h)"
| "table_len h (InputRegisters r) = length (inputRegs h)"
| "table_len h (Coils r) = length (coils h)"
| "table_len h (DiscreteInputs r) = length (discreteInputs h)"

text \<open>The four tables and the counter: everything a request could read or write.\<close>

definition tables ::
  "ModbusHandler \<Rightarrow> uint16 list \<times> uint16 list \<times> bool list \<times> bool list \<times> uint16" where
  "tables h = (holdingRegs h, inputRegs h, coils h, discreteInputs h, counter h)"

text \<open>
  The single-register requests of the repository's tests (\<open>TestRegisterWrite\<close>,
  \<open>CounterProtection\<close>): write one value to an address, read one address.
\<close>

definition write_one :: "uint8 \<Rightarrow> uint16 \<Rightarrow> 'a \<Rightarrow> 'a WriteRequest" where
  "write_one u a v = \<lparr>UnitId = u, Addr = a, Quantity = 1, IsWrite = True, Args = [v]\<rparr>"

definition read_one :: "uint8 \<Rightarrow> uint16 \<Rightarrow> 'a WriteRequest" where
  "read_one u a = \<lparr>UnitId = u, Addr = a, Quantity = 1, IsWrite = False, Args = []\<rparr>"

section \<open>Runs of operations\<close>


text \<open>
  A sequential run of the operations that reach the handler after construction:
  requests from the transport and ticks of the register updater.
\<close>

datatype operation = Request request | Tick

fun step :: "ModbusHandler \<Rightarrow> operation \<Rightarrow> ModbusHandler" where
  "step h (Request r) = fst (handle h r)"
| "step h Tick = fst (UpdateCounter h)"

fun run :: "ModbusHandler \<Rightarrow> operation list \<Rightarrow> ModbusHandler" where
  "run h [] = h"
| "run h (c # cs) = run (step h c) cs"

section \<open>Startup with retries (server/server.go)\<close>

record ServerConfig =
  Address_server :: string
  Port :: int
  MaxClients :: nat
  Timeout :: int
  MaxRetries :: int
  RetryDelay :: int

record LoggingConfig =
  Level :: string
  File :: string
  MaxSize :: int
  Console :: bool

record Config =
  Server :: ServerConfig
  Logging :: LoggingConfig
  Modbus :: ModbusConfig

text \<open>
  What \<open>Start\<close> does that can be observed from outside: logger calls, calls of
  \<open>startServer\<close>, completed waits of the retry delay (in seconds), and the two
  background tasks \<open>startServer\<close> spawns.
\<close>

datatype task = RegisterUpdater | HealthChecker

datatype event =
  Logged level string
| StartServer
| Waited int
| Spawned task

text \<open>
  The environment answers, from the events so far: whether the context is already
  cancelled at a poll, whether it is cancelled before a wait of the given length is
  over, whether it is ever cancelled while \<open>startServer\<close> blocks on it, and whether
  the library's \<open>NewServer\<close> and \<open>server.Start\<close> succeed.
\<close>

record environment =
  ctx_done :: "event list \<Rightarrow> bool"
  ctx_done_within :: "event list \<Rightarrow> int \<Rightarrow> bool"
  ctx_done_later :: "event list \<Rightarrow> bool"
  new_server_ok :: "event list \<Rightarrow> bool"
  server_start_ok :: "event list \<Rightarrow> bool"

datatype start_error =
  CtxErr
| MaxRetriesExceeded int
| FailedToCreateServer
| FailedToStartServer

text \<open>
  A call returns an error, returns \<open>nil\<close>, or never returns (\<open>startServer\<close>
  blocked on a context that is never cancelled).
\<close>

datatype outcome = ReturnsErr start_error | ReturnsNil | NeverReturns

definition startServer :: "environment \<Rightarrow> Config \<Rightarrow> event list \<Rightarrow> event list \<times> outcome" where
  "startServer env cfg tr =
     (if \<not> new_server_ok env tr then (tr, ReturnsErr FailedToCreateServer)
      else
        let tr1 = tr @ [Spawned RegisterUpdater, Spawned HealthChecker,
                        Logged Info ''Starting server'']
        in if \<not> server_start_ok env tr1 then (tr1, ReturnsErr FailedToStartServer)
           else
             let tr2 = tr1 @ [Logged Info ''Server started successfully'']
             in if ctx_done_later env tr2 then (tr2, ReturnsNil) else (tr2, NeverReturns))"

function Start_loop ::
  "environment \<Rightarrow> Config \<Rightarrow> nat \<Rightarrow> event list \<Rightarrow> event list \<times> outcome" where
  "Start_loop env cfg retryCount tr =
     (if ctx_done env tr then (tr, ReturnsErr CtxErr)
      else if retryCount > 0 \<and> int retryCount \<ge> MaxRetries (Server cfg) then
        (tr, ReturnsErr (MaxRetriesExceeded (MaxRetries (Server cfg))))
      else if retryCount > 0 \<and>
              ctx_done_within env (tr @ [Logged Warn ''Retrying server start''])
                (RetryDelay (Server cfg)) then
        (tr @ [Logged Warn ''Retrying server start''], ReturnsErr CtxErr)
      else
        (case startServer env cfg
                ((if retryCount > 0
                  then tr @ [Logged Warn ''Retrying server start'',
                             Waited (RetryDelay (Server cfg))]
                  else tr) @ [StartServer]) of
           (tr', ReturnsErr err) \<Rightarrow>
             Start_loop env cfg (retryCount + 1) (tr' @ [Logged Error ''Server start failed''])
         | (tr', ReturnsNil) \<Rightarrow> (tr', ReturnsNil)
         | (tr', NeverReturns) \<Rightarrow> (tr', NeverReturns)))"
  by pat_completeness auto
termination
  by (relation "measure (\<lambda>(env, cfg, retryCount, tr).
        (nat (MaxRetries (Server cfg)) - retryCount) + (if retryCount = 0 then 2 else 0))") auto

declare Start_loop.simps [simp del]

definition Start :: "environment \<Rightarrow> Config \<Rightarrow> event list \<times> outcome" where
  "Start env cfg = Start_loop env cfg 0 []"

text \<open>The calls of \<open>startServer\<close> and the completed waits of a trace, in order.\<close>

fun is_attempt_or_wait :: "event \<Rightarrow> bool" where
  "is_attempt_or_wait StartServer = True"
| "is_attempt_or_wait (Waited d) = True"
| "is_attempt_or_wait _ = False"

definition attempts_and_waits :: "event list \<Rightarrow> event list" where
  "attempts_and_waits tr = filter is_attempt_or_wait tr"

fun is_attempt :: "event \<Rightarrow> bool" where
  "is_attempt StartServer = True"
| "is_attempt _ = False"

fun is_wait :: "event \<Rightarrow> bool" where
  "is_wait (Waited d) = True"
| "is_wait _ = False"

definition attempts :: "event list \<Rightarrow> nat" where
  "attempts tr = length (filter is_attempt tr)"

definition waits :: "event list \<Rightarrow> nat" where
  "waits tr = length (filter is_wait tr)"

text \<open>Whether a call returned an error.\<close>

definition fails :: "outcome \<Rightarrow> bool" where
  "fails out = (case out of ReturnsErr e \<Rightarrow> True | _ \<Rightarrow> False)"

text \<open>Whether a handler call returned one of the exception values (a panic returns nothing).\<close>

definition returns_error :: "error + 'a \<Rightarrow> bool" where
  "returns_error x = (case x of Inl e \<Rightarrow> \<not> is_panic e | Inr y \<Rightarrow> False)"

text \<open>The handler invocations among the operations of a run.\<close>

fun is_request :: "operation \<Rightarrow> bool" where
  "is_request (Request r) = True"
| "is_request Tick = False"

definition requests_in :: "operation list \<Rightarrow> nat" where
  "requests_in ops = length (filter is_request ops)"

text \<open>
  The four tables have the configured length, as the constructor allocates them.
\<close>

definition sized :: "ModbusHandler \<Rightarrow> bool" where
  "sized h =
     (0 \<le> MaxRegisters (config h) \<and>
      length (holdingRegs h) = nat (MaxRegisters (config h)) \<and>
      length (inputRegs h) = nat (MaxRegisters (config h)) \<and>
      length (coils h) = nat (MaxRegisters (config h)) \<and>
      length (discreteInputs h) = nat (MaxRegisters (config h)))"

section \<open>Concrete configurations and requests\<close>

text \<open>
  A four-slot device with the counter at address 2 and two seed entries, the handler
  its construction yields, and requests in the shape of the repository's tests.
\<close>

definition small_config :: ModbusConfig where
  "small_config =
     \<lparr>UnitID = 1, MaxRegisters = 4, CounterAddress = 2, UpdateInterval = 1,
      InitialData = [\<lparr>Type = ''holding'', Address = 1, Value = 2025\<rparr>,
                     \<lparr>Type = ''coil'', Address = 0, Value = 1\<rparr>]\<rparr>"

definition small_handler :: ModbusHandler where
  "small_handler =
     \<lparr>config = small_config, logger = [(Info, ''Handler initialized'')],
      holdingRegs = [0, 2025, 0, 0], inputRegs = [0, 0, 0, 0],
      coils = [True, False, False, False], discreteInputs = [False, False, False, False],
      counter = 0, stats = \<lparr>RequestsHandled = 0, Errors = 0, StartTime = 0\<rparr>\<rparr>"

definition wrong_unit_read :: request where
  "wrong_unit_read =
     HoldingRegisters \<lparr>UnitId = 99, Addr = 0, Quantity = 1, IsWrite = False, Args = []\<rparr>"

definition overrun_read :: request where
  "overrun_read = InputRegisters \<lparr>UnitId = 1, Addr = 3, Quantity = 5\<rparr>"

definition valid_read :: request where
  "valid_read = DiscreteInputs \<lparr>UnitId = 1, Addr = 1, Quantity = 3\<rparr>"

text \<open>A configuration whose counter address is the table length.\<close>

definition unreachable_counter_config :: ModbusConfig where
  "unreachable_counter_config =
     \<lparr>UnitID = 1, MaxRegisters = 4, CounterAddress = 4, UpdateInterval = 1, InitialData = []\<rparr>"

text \<open>
  A configuration covering the whole 16-bit address space, with the first seed entry
  of the default configuration.
\<close>

definition full_range_config :: ModbusConfig where
  "full_range_config =
     \<lparr>UnitID = 1, MaxRegisters = 65536, CounterAddress = 102, UpdateInterval = 1,
      InitialData = [\<lparr>Type = ''holding'', Address = 100, Value = 2025\<rparr>]\<rparr>"

text \<open>
  Write requests against the four-slot device: with no value for the counter address or
  for a coil, with one value too few, and with a value for every position.
\<close>

definition counter_write_no_args :: HoldingRegistersRequest where
  "counter_write_no_args = \<lparr>UnitId = 1, Addr = 2, Quantity = 1, IsWrite = True, Args = []\<rparr>"

definition coil_write_no_args :: CoilsRequest where
  "coil_write_no_args = \<lparr>UnitId = 1, Addr = 2, Quantity = 1, IsWrite = True, Args = []\<rparr>"

definition holding_write_short :: HoldingRegistersRequest where
  "holding_write_short = \<lparr>UnitId = 1, Addr = 1, Quantity = 3, IsWrite = True, Args = [7, 8]\<rparr>"

definition holding_write_full :: HoldingRegistersRequest where
  "holding_write_full = \<lparr>UnitId = 1, Addr = 1, Quantity = 3, IsWrite = True, Args = [7, 8, 9]\<rparr>"

definition coil_write_full :: CoilsRequest where
  "coil_write_full = \<lparr>UnitId = 1, Addr = 2, Quantity = 2, IsWrite = True, Args = [True, True]\<rparr>"

text \<open>
  The startup scenario of the specification: the context is never cancelled, the
  listener never starts, three retries at most, one second between them.
\<close>

definition failing_transport :: environment where
  "failing_transport =
     \<lparr>ctx_done = (\<lambda>tr. False), ctx_done_within = (\<lambda>tr d. False),
      ctx_done_later = (\<lambda>tr. False),
      new_server_ok = (\<lambda>tr. True), server_start_ok = (\<lambda>tr. False)\<rparr>"

definition three_retries_config :: Config where
  "three_retries_config =
     \<lparr>Server = \<lparr>Address_server = ''0.0.0.0'', Port = 1502, MaxClients = 10, Timeout = 30,
                 MaxRetries = 3, RetryDelay = 1\<rparr>,
      Logging = \<lparr>Level = ''INFO'', File = ''modbus_server.jsonl'', MaxSize = 100,
                  Console = True\<rparr>,
      Modbus = small_config\<rparr>"

text \<open>
  A table one slot longer than the 16-bit address space, with the counter at address 0:
  the handler its construction yields, a write of two registers that ends at address
  65536, and the read of the same two registers.
\<close>

definition wide_config :: ModbusConfig where
  "wide_config =
     \<lparr>UnitID = 1, MaxRegisters = 65537, CounterAddress = 0, UpdateInterval = 1,
      InitialData = []\<rparr>"

definition wide_handler :: ModbusHandler where
  "wide_handler =
     \<lparr>config = wide_config, logger = [(Info, ''Handler initialized'')],
      holdingRegs = replicate 65537 0, inputRegs = replicate 65537 0,
      coils = replicate 65537 False, discreteInputs = replicate 65537 False,
      counter = 0, stats = \<lparr>RequestsHandled = 0, Errors = 0, StartTime = 0\<rparr>\<rparr>"

definition wide_write :: HoldingRegistersRequest where
  "wide_write = \<lparr>UnitId = 1, Addr = 65535, Quantity = 2, IsWrite = True, Args = [7, 9]\<rparr>"

definition wide_read :: HoldingRegistersRequest where
  "wide_read = \<lparr>UnitId = 1, Addr = 65535, Quantity = 2, IsWrite = False, Args = []\<rparr>"

section \<open>Frame properties of the loops\<close>

lemma small_handler_constructed: "NewModbusHandler small_config [] 0 = Inr small_handler"
  by code_simp

lemma holding_body_frame:
  "holding_body h req i = (h', r) \<Longrightarrow>
     config h' = config h \<and> stats h' = stats h \<and> inputRegs h' = inputRegs h \<and>
     coils h' = coils h \<and> discreteInputs h' = discreteInputs h \<and> counter h' = counter h \<and>
     length (holdingRegs h') = length (holdingRegs h)"
  by (auto simp: holding_body_def log_call_def Let_def split: if_splits)

lemma holding_body_panic:
  "holding_body h req i = (h', Inl e) \<Longrightarrow> e = PanicIndexOutOfRange \<and> h' = h"
  by (auto simp: holding_body_def log_call_def Let_def split: if_splits)

lemma holding_loop_frame:
  "holding_loop h req i res = (h', r) \<Longrightarrow>
     config h' = config h \<and> stats h' = stats h \<and> inputRegs h' = inputRegs h \<and>
     coils h' = coils h \<and> discreteInputs h' = discreteInputs h \<and> counter h' = counter h \<and>
     length (holdingRegs h') = length (holdingRegs h)"
proof (induction h req i res rule: holding_loop.induct)
  case (1 h req i res)
  show ?case
  proof (cases "i < unat (Quantity req)")
    case False
    with "1.prems" show ?thesis by (simp add: holding_loop.simps [of h req i res])
  next
    case True
    obtain h1 r1 where b: "holding_body h req i = (h1, r1)" by (cases "holding_body h req i")
    note f = holding_body_frame [OF b]
    show ?thesis
    proof (cases r1)
      case (Inl e)
      with True b "1.prems" have "h' = h1"
        by (simp add: holding_loop.simps [of h req i res])
      with f show ?thesis by simp
    next
      case (Inr v)
      with True b "1.prems" have "holding_loop h1 req (i + 1) (res @ [v]) = (h', r)"
        by (simp add: holding_loop.simps [of h req i res])
      from "1.IH" [OF True b [symmetric] Inr this] f show ?thesis by simp
    qed
  qed
qed

lemma holding_loop_error:
  "holding_loop h req i res = (h', Inl e) \<Longrightarrow> e = PanicIndexOutOfRange"
proof (induction h req i res rule: holding_loop.induct)
  case (1 h req i res)
  show ?case
  proof (cases "i < unat (Quantity req)")
    case False
    with "1.prems" show ?thesis by (simp add: holding_loop.simps [of h req i res])
  next
    case True
    obtain h1 r1 where b: "holding_body h req i = (h1, r1)" by (cases "holding_body h req i")
    show ?thesis
    proof (cases r1)
      case (Inl e1)
      with True b "1.prems" have "e = e1"
        by (simp add: holding_loop.simps [of h req i res])
      with holding_body_panic b Inl show ?thesis by blast
    next
      case (Inr v)
      with True b "1.prems" have "holding_loop h1 req (i + 1) (res @ [v]) = (h', Inl e)"
        by (simp add: holding_loop.simps [of h req i res])
      from "1.IH" [OF True b [symmetric] Inr this] show ?thesis .
    qed
  qed
qed

lemma read_loop_error: "read_loop tbl req i res = Inl e \<Longrightarrow> e = PanicIndexOutOfRange"
proof (induction tbl req i res rule: read_loop.induct)
  case (1 tbl req i res)
  then show ?case
    by (simp add: read_loop.simps [of tbl req i res] split: if_splits)
qed

lemma coils_body_frame:
  "coils_body h req i = (h', r) \<Longrightarrow>
     config h' = config h \<and> stats h' = stats h \<and> inputRegs h' = inputRegs h \<and>
     holdingRegs h' = holdingRegs h \<and> discreteInputs h' = discreteInputs h \<and>
     counter h' = counter h \<and> logger h' = logger h \<and> length (coils h') = length (coils h)"
  by (auto simp: coils_body_def Let_def split: if_splits)

lemma coils_body_panic:
  "coils_body h req i = (h', Inl e) \<Longrightarrow> e = PanicIndexOutOfRange \<and> h' = h"
  by (auto simp: coils_body_def Let_def split: if_splits)

lemma coils_loop_frame:
  "coils_loop h req i res = (h', r) \<Longrightarrow>
     config h' = config h \<and> stats h' = stats h \<and> inputRegs h' = inputRegs h \<and>
     holdingRegs h' = holdingRegs h \<and> discreteInputs h' = discreteInputs h \<and>
     counter h' = counter h \<and> logger h' = logger h \<and> length (coils h') = length (coils h)"
proof (induction h req i res rule: coils_loop.induct)
  case (1 h req i res)
  show ?case
  proof (cases "i < unat (Quantity req)")
    case False
    with "1.prems" show ?thesis by (simp add: coils_loop.simps [of h req i res])
  next
    case True
    obtain h1 r1 where b: "coils_body h req i = (h1, r1)" by (cases "coils_body h req i")
    note f = coils_body_frame [OF b]
    show ?thesis
    proof (cases r1)
      case (Inl e)
      with True b "1.prems" have "h' = h1"
        by (simp add: coils_loop.simps [of h req i res])
      with f show ?thesis by simp
    next
      case (Inr v)
      with True b "1.prems" have "coils_loop h1 req (i + 1) (res @ [v]) = (h', r)"
        by (simp add: coils_loop.simps [of h req i res])
      from "1.IH" [OF True b [symmetric] Inr this] f show ?thesis by simp
    qed
  qed
qed

lemma coils_loop_error:
  "coils_loop h req i res = (h', Inl e) \<Longrightarrow> e = PanicIndexOutOfRange"
proof (induction h req i res rule: coils_loop.induct)
  case (1 h req i res)
  show ?case
  proof (cases "i < unat (Quantity req)")
    case False
    with "1.prems" show ?thesis by (simp add: coils_loop.simps [of h req i res])
  next
    case True
    obtain h1 r1 where b: "coils_body h req i = (h1, r1)" by (cases "coils_body h req i")
    show ?thesis
    proof (cases r1)
      case (Inl e1)
      with True b "1.prems" have "e = e1"
        by (simp add: coils_loop.simps [of h req i res])
      with coils_body_panic b Inl show ?thesis by blast
    next
      case (Inr v)
      with True b "1.prems" have "coils_loop h1 req (i + 1) (res @ [v]) = (h', Inl e)"
        by (simp add: coils_loop.simps [of h req i res])
      from "1.IH" [OF True b [symmetric] Inr this] show ?thesis .
    qed
  qed
qed

section \<open>Rejected requests\<close>

text \<open>The bounds test of the handlers, read on natural numbers.\<close>

lemma bounds_check [simp]:
  "(int (length xs) < uint (a :: uint16) + uint (q :: uint16)) = (length xs < unat a + unat q)"
  by (simp add: uint_nat del: of_nat_unat) linarith

lemmas handler_defs =
  HandleHoldingRegisters_def HandleInputRegisters_def HandleCoils_def HandleDiscreteInputs_def
  count_request_def count_error_def log_call_def Let_def

lemma handle_wrong_unit:
  "unit_of r \<noteq> UnitID (config h) \<Longrightarrow>
     snd (handle h r) = Inl ErrIllegalFunction \<and> tables (fst (handle h r)) = tables h \<and>
     stats (fst (handle h r)) =
       (stats h)\<lparr>RequestsHandled := RequestsHandled (stats h) + 1,
                 Errors := Errors (stats h) + 1\<rparr>"
  by (cases r) (simp_all add: handler_defs tables_def)

lemma handle_out_of_range:
  "unit_of r = UnitID (config h) \<Longrightarrow> table_len h r < unat (addr_of r) + unat (quantity_of r) \<Longrightarrow>
     snd (handle h r) = Inl ErrIllegalDataAddress \<and> tables (fst (handle h r)) = tables h \<and>
     stats (fst (handle h r)) =
       (stats h)\<lparr>RequestsHandled := RequestsHandled (stats h) + 1,
                 Errors := Errors (stats h) + 1\<rparr>"
  by (cases r) (simp_all add: handler_defs tables_def)

lemma handle_in_range_result:
  assumes "unit_of r = UnitID (config h)"
    and "unat (addr_of r) + unat (quantity_of r) \<le> table_len h r"
  shows "snd (handle h r) \<noteq> Inl ErrIllegalDataAddress \<and> snd (handle h r) \<noteq> Inl ErrIllegalFunction"
proof (cases r)
  case (HoldingRegisters q)
  obtain h' x where l: "holding_loop (count_request h) q 0 [] = (h', x)"
    by (cases "holding_loop (count_request h) q 0 []")
  have "x \<noteq> Inl ErrIllegalDataAddress \<and> x \<noteq> Inl ErrIllegalFunction"
    using holding_loop_error l by fastforce
  with assms HoldingRegisters l show ?thesis
    by (cases x) (simp_all add: HandleHoldingRegisters_def count_request_def Let_def)
next
  case (InputRegisters q)
  with assms read_loop_error [of "inputRegs h" q 0 "[]"] show ?thesis
    by (cases "read_loop (inputRegs h) q 0 []")
       (auto simp add: HandleInputRegisters_def count_request_def Let_def)
next
  case (Coils q)
  obtain h' x where l: "coils_loop (count_request h) q 0 [] = (h', x)"
    by (cases "coils_loop (count_request h) q 0 []")
  have "x \<noteq> Inl ErrIllegalDataAddress \<and> x \<noteq> Inl ErrIllegalFunction"
    using coils_loop_error l by fastforce
  with assms Coils l show ?thesis
    by (cases x) (simp_all add: HandleCoils_def count_request_def Let_def)
next
  case (DiscreteInputs q)
  with assms read_loop_error [of "discreteInputs h" q 0 "[]"] show ?thesis
    by (cases "read_loop (discreteInputs h) q 0 []")
       (auto simp add: HandleDiscreteInputs_def count_request_def Let_def)
qed

text \<open>
  C3. A request of any of the four kinds whose unit id differs from the configured one
  returns \<open>ErrIllegalFunction\<close> and leaves the four tables and the counter as they
  were. Nothing is assumed about address and quantity: the rejection is the same
  whether or not they are within bounds.
\<close>

theorem identity_mismatch_rejected:
  "unit_of r \<noteq> UnitID (config h) \<Longrightarrow>
     snd (handle h r) = Inl ErrIllegalFunction \<and> tables (fst (handle h r)) = tables h"
  using handle_wrong_unit by blast

theorem identity_mismatch_rejected_witness:
  "unit_of wrong_unit_read \<noteq> UnitID (config small_handler) \<and>
   snd (handle small_handler wrong_unit_read) = Inl ErrIllegalFunction \<and>
   tables (fst (handle small_handler wrong_unit_read)) = tables small_handler"
proof -
  have u: "unit_of wrong_unit_read \<noteq> UnitID (config small_handler)"
    by (simp add: wrong_unit_read_def small_handler_def small_config_def)
  from u identity_mismatch_rejected [OF u] show ?thesis by simp
qed

text \<open>
  C2. For a request of any of the four kinds with the configured unit id: when address
  plus quantity exceeds the length of the target table, the handler returns
  \<open>ErrIllegalDataAddress\<close> and the four tables and the counter are unchanged; when
  address plus quantity is within the table, the handler does not return
  \<open>ErrIllegalDataAddress\<close>.
\<close>

theorem out_of_range_rejected:
  "unit_of r = UnitID (config h) \<Longrightarrow>
     (table_len h r < unat (addr_of r) + unat (quantity_of r) \<longrightarrow>
        snd (handle h r) = Inl ErrIllegalDataAddress \<and> tables (fst (handle h r)) = tables h) \<and>
     (unat (addr_of r) + unat (quantity_of r) \<le> table_len h r \<longrightarrow>
        snd (handle h r) \<noteq> Inl ErrIllegalDataAddress)"
  using handle_out_of_range handle_in_range_result by blast

theorem out_of_range_rejected_witness:
  "unit_of overrun_read = UnitID (config small_handler) \<and>
   table_len small_handler overrun_read
     < unat (addr_of overrun_read) + unat (quantity_of overrun_read) \<and>
   snd (handle small_handler overrun_read) = Inl ErrIllegalDataAddress \<and>
   tables (fst (handle small_handler overrun_read)) = tables small_handler \<and>
   unit_of valid_read = UnitID (config small_handler) \<and>
   unat (addr_of valid_read) + unat (quantity_of valid_read) \<le> table_len small_handler valid_read \<and>
   snd (handle small_handler valid_read) \<noteq> Inl ErrIllegalDataAddress"
proof -
  have u1: "unit_of overrun_read = UnitID (config small_handler)"
    by (simp add: overrun_read_def small_handler_def small_config_def)
  have b1: "table_len small_handler overrun_read
              < unat (addr_of overrun_read) + unat (quantity_of overrun_read)"
    by (simp add: overrun_read_def small_handler_def)
  have u2: "unit_of valid_read = UnitID (config small_handler)"
    by (simp add: valid_read_def small_handler_def small_config_def)
  have b2: "unat (addr_of valid_read) + unat (quantity_of valid_read)
              \<le> table_len small_handler valid_read"
    by (simp add: valid_read_def small_handler_def)
  from u1 b1 u2 b2 out_of_range_rejected [OF u1] out_of_range_rejected [OF u2]
  show ?thesis by blast
qed

section \<open>Construction\<close>

lemma seed_entry_frame:
  "seed_entry h d = Inr h' \<Longrightarrow>
     config h' = config h \<and> stats h' = stats h \<and> counter h' = counter h \<and>
     length (holdingRegs h') = length (holdingRegs h) \<and>
     length (inputRegs h') = length (inputRegs h) \<and>
     length (coils h') = length (coils h) \<and>
     length (discreteInputs h') = length (discreteInputs h)"
  by (auto simp: seed_entry_def log_call_def split: if_splits)

lemma seed_loop_frame:
  "seed_loop h ds = Inr h' \<Longrightarrow>
     config h' = config h \<and> stats h' = stats h \<and> counter h' = counter h \<and>
     length (holdingRegs h') = length (holdingRegs h) \<and>
     length (inputRegs h') = length (inputRegs h) \<and>
     length (coils h') = length (coils h) \<and>
     length (discreteInputs h') = length (discreteInputs h)"
proof (induction ds arbitrary: h)
  case Nil
  then show ?case by simp
next
  case (Cons d ds)
  from Cons.prems obtain h1 where e: "seed_entry h d = Inr h1" and l: "seed_loop h1 ds = Inr h'"
    by (auto split: sum.splits)
  from Cons.IH [OF l] seed_entry_frame [OF e] show ?case by simp
qed

text \<open>The conversion \<open>uint16(config.MaxRegisters)\<close> never exceeds the table length.\<close>

lemma unat_truncated_le:
  assumes "0 \<le> m"
  shows "unat (word_of_int m :: uint16) \<le> nat m"
proof -
  have "uint (word_of_int m :: uint16) = m mod 2 ^ 16"
    by (simp add: uint_word_of_int)
  moreover have "m mod 2 ^ 16 \<le> m" using assms by (simp add: zmod_le_nonneg_dividend)
  ultimately show ?thesis by (simp add: unat_eq_nat_uint del: of_nat_unat)
qed

text \<open>
  For a table of at most 65535 slots the conversion is exact, and the skip test of the
  seed loop is the comparison of the address with \<open>MaxRegisters\<close>.
\<close>

lemma skip_test_exact:
  assumes "0 \<le> m" and "m \<le> 65535"
  shows "((word_of_int m :: uint16) \<le> a) = (m \<le> uint a)"
proof -
  from assms have "uint (word_of_int m :: uint16) = m"
    by (simp add: uint_word_of_int)
  then show ?thesis by (simp add: word_le_def)
qed

lemma seed_entry_safe:
  assumes "sized h"
  shows "\<exists>h'. seed_entry h d = Inr h'"
proof (cases "Address d \<ge> (word_of_int (MaxRegisters (config h)) :: uint16)")
  case True
  then show ?thesis by (simp add: seed_entry_def)
next
  case False
  then have "unat (Address d) < unat (word_of_int (MaxRegisters (config h)) :: uint16)"
    by (simp add: word_less_nat_alt not_le)
  with unat_truncated_le [of "MaxRegisters (config h)"] assms
  have "unat (Address d) < nat (MaxRegisters (config h))"
    by (simp add: sized_def)
  with assms False show ?thesis
    by (simp add: seed_entry_def sized_def)
qed

lemma seed_loop_safe: "sized h \<Longrightarrow> \<exists>h'. seed_loop h ds = Inr h'"
proof (induction ds arbitrary: h)
  case Nil
  then show ?case by simp
next
  case (Cons d ds)
  from seed_entry_safe [OF Cons.prems] obtain h1 where e: "seed_entry h d = Inr h1" by blast
  from seed_entry_frame [OF e] Cons.prems have "sized h1" by (simp add: sized_def)
  from Cons.IH [OF this] e show ?case by simp
qed

lemma NewModbusHandler_fresh:
  assumes "NewModbusHandler cfg lg now = Inr h"
  shows "config h = cfg \<and> counter h = 0 \<and>
         stats h = \<lparr>RequestsHandled = 0, Errors = 0, StartTime = now\<rparr> \<and>
         unat (CounterAddress cfg) < length (holdingRegs h) \<and>
         holdingRegs h ! unat (CounterAddress cfg) = 0 \<and>
         length (holdingRegs h) = nat (MaxRegisters cfg)"
proof -
  let ?h0 = "\<lparr>config = cfg, logger = lg,
               holdingRegs = replicate (nat (MaxRegisters cfg)) 0,
               inputRegs = replicate (nat (MaxRegisters cfg)) 0,
               coils = replicate (nat (MaxRegisters cfg)) False,
               discreteInputs = replicate (nat (MaxRegisters cfg)) False,
               counter = 0,
               stats = \<lparr>RequestsHandled = 0, Errors = 0, StartTime = now\<rparr>\<rparr>"
  from assms obtain h1 where l: "seed_loop ?h0 (InitialData cfg) = Inr h1"
    and c: "unat (CounterAddress cfg) < length (holdingRegs h1)"
    and h: "h = log_call Info ''Handler initialized''
                 (h1\<lparr>holdingRegs := (holdingRegs h1)[unat (CounterAddress cfg) := 0]\<rparr>)"
    by (auto simp: NewModbusHandler_def Let_def split: if_splits sum.splits)
  from seed_loop_frame [OF l] c h show ?thesis by (simp add: log_call_def)
qed

section \<open>Statistics\<close>

lemma handle_stats:
  "stats (fst (handle h r)) =
     (stats h)\<lparr>RequestsHandled := RequestsHandled (stats h) + 1,
               Errors := Errors (stats h) + (if returns_error (snd (handle h r)) then 1 else 0)\<rparr>"
proof (cases "unit_of r \<noteq> UnitID (config h)")
  case True
  from handle_wrong_unit [OF this] show ?thesis by (simp add: returns_error_def)
next
  case u: False
  show ?thesis
  proof (cases "table_len h r < unat (addr_of r) + unat (quantity_of r)")
    case True
    with u handle_out_of_range [of r h] show ?thesis by (simp add: returns_error_def)
  next
    case False
    with u handle_in_range_result [of r h]
    have ne: "snd (handle h r) \<noteq> Inl ErrIllegalDataAddress \<and>
              snd (handle h r) \<noteq> Inl ErrIllegalFunction"
      by simp
    have nr: "\<not> returns_error (snd (handle h r))"
    proof (cases "snd (handle h r)")
      case (Inl e)
      with ne show ?thesis by (cases e) (simp_all add: returns_error_def)
    next
      case (Inr y)
      then show ?thesis by (simp add: returns_error_def)
    qed
    have "stats (fst (handle h r)) = (stats h)\<lparr>RequestsHandled := RequestsHandled (stats h) + 1\<rparr>"
    proof (cases r)
      case (HoldingRegisters q)
      obtain h' x where l: "holding_loop (count_request h) q 0 [] = (h', x)"
        by (cases "holding_loop (count_request h) q 0 []")
      from holding_loop_frame [OF l] have "stats h' = stats (count_request h)" by simp
      with u False HoldingRegisters l show ?thesis
        by (cases x) (simp_all add: handler_defs)
    next
      case (InputRegisters q)
      with u False show ?thesis by (simp add: handler_defs)
    next
      case (Coils q)
      obtain h' x where l: "coils_loop (count_request h) q 0 [] = (h', x)"
        by (cases "coils_loop (count_request h) q 0 []")
      from coils_loop_frame [OF l] have "stats h' = stats (count_request h)" by simp
      with u False Coils l show ?thesis
        by (cases x) (simp_all add: handler_defs)
    next
      case (DiscreteInputs q)
      with u False show ?thesis by (simp add: handler_defs)
    qed
    with nr show ?thesis by simp
  qed
qed

lemma GetStats_eq: "GetStats h = stats h"
  by (simp add: GetStats_def)

lemma UpdateCounter_stats: "stats (fst (UpdateCounter h)) = stats h"
  by (simp add: UpdateCounter_def log_call_def Let_def)

lemma unat_succ64: "unat (w :: uint64) < 2 ^ 64 - 1 \<Longrightarrow> unat (w + 1) = unat w + 1"
  by (simp add: unat_word_ariths)

lemma run_stats:
  "unat (RequestsHandled (stats h)) + length ops < 2 ^ 64 \<Longrightarrow>
   Errors (stats h) \<le> RequestsHandled (stats h) \<Longrightarrow>
     Errors (stats (run h ops)) \<le> RequestsHandled (stats (run h ops)) \<and>
     unat (RequestsHandled (stats (run h ops)))
       = unat (RequestsHandled (stats h)) + requests_in ops \<and>
     StartTime (stats (run h ops)) = StartTime (stats h)"
proof (induction ops arbitrary: h)
  case Nil
  then show ?case by (simp add: requests_in_def)
next
  case (Cons c cs)
  show ?case
  proof (cases c)
    case Tick
    with Cons.prems Cons.IH [of "fst (UpdateCounter h)"] show ?thesis
      by (simp add: UpdateCounter_stats requests_in_def)
  next
    case (Request r)
    let ?h = "fst (handle h r)"
    from Cons.prems have lt: "unat (RequestsHandled (stats h)) < 2 ^ 64 - 1" by simp
    from Cons.prems have "unat (Errors (stats h)) \<le> unat (RequestsHandled (stats h))"
      by (simp add: word_le_nat_alt)
    with lt have lte: "unat (Errors (stats h)) < 2 ^ 64 - 1" by simp
    have rh: "unat (RequestsHandled (stats ?h)) = unat (RequestsHandled (stats h)) + 1"
      using unat_succ64 [OF lt] by (simp add: handle_stats)
    have er: "unat (Errors (stats ?h)) \<le> unat (Errors (stats h)) + 1"
      using unat_succ64 [OF lte] by (simp add: handle_stats)
    from rh er Cons.prems have 1: "Errors (stats ?h) \<le> RequestsHandled (stats ?h)"
      by (simp add: word_le_nat_alt)
    from rh Cons.prems have 2: "unat (RequestsHandled (stats ?h)) + length cs < 2 ^ 64" by simp
    from Cons.IH [OF 2 1] rh Request show ?thesis
      by (simp add: requests_in_def handle_stats)
  qed
qed

text \<open>
  C8, as stated, fails: a request with a foreign unit id does change the total-requests
  counter. On the handler of the four-slot device, the rejected read leaves
  \<open>RequestsHandled\<close> different from what it was.
\<close>

theorem mismatch_counts_request:
  "unit_of wrong_unit_read \<noteq> UnitID (config small_handler) \<and>
   RequestsHandled (stats (fst (handle small_handler wrong_unit_read)))
     \<noteq> RequestsHandled (stats small_handler)"
  by code_simp

text \<open>
  C8, amended. For a request of any kind whose unit id differs from the configured one,
  the total-requests counter and the error counter each go up by one (64-bit
  addition), the start timestamp is unchanged, and the four tables and the counter
  are unchanged.
\<close>

theorem mismatch_statistics:
  "unit_of r \<noteq> UnitID (config h) \<Longrightarrow>
     RequestsHandled (stats (fst (handle h r))) = RequestsHandled (stats h) + 1 \<and>
     Errors (stats (fst (handle h r))) = Errors (stats h) + 1 \<and>
     StartTime (stats (fst (handle h r))) = StartTime (stats h) \<and>
     tables (fst (handle h r)) = tables h"
  using handle_wrong_unit [of r h] by simp

theorem mismatch_statistics_witness:
  "unit_of wrong_unit_read \<noteq> UnitID (config small_handler) \<and>
   RequestsHandled (stats (fst (handle small_handler wrong_unit_read))) = 1 \<and>
   Errors (stats (fst (handle small_handler wrong_unit_read))) = 1 \<and>
   StartTime (stats (fst (handle small_handler wrong_unit_read))) = 0 \<and>
   tables (fst (handle small_handler wrong_unit_read)) = tables small_handler"
proof -
  have u: "unit_of wrong_unit_read \<noteq> UnitID (config small_handler)"
    by (simp add: wrong_unit_read_def small_handler_def small_config_def)
  have s: "stats small_handler = \<lparr>RequestsHandled = 0, Errors = 0, StartTime = 0\<rparr>"
    by (simp add: small_handler_def)
  from u mismatch_statistics [OF u] s show ?thesis by simp
qed

text \<open>
  C9. Take any run of fewer than \<open>2 ^ 64 - 1\<close> operations (handler invocations of
  any kind and counter ticks) from a freshly constructed handler, and one more
  operation \<open>c\<close> after it. The total-requests counter equals the number of handler
  invocations made, the error counter is at most the total-requests counter, and the
  start timestamp is the one set at construction. The operation \<open>c\<close> lowers neither
  counter; if it is a handler invocation, whatever it returns, the total-requests
  counter goes up by exactly one, and the error counter goes up by exactly one when an
  exception value is returned and stays otherwise; a counter tick changes no statistic.
  The bound on the length is the range of the 64-bit counters.
\<close>

theorem request_statistics:
  assumes "NewModbusHandler cfg lg now = Inr h0"
    and "length ops < 2 ^ 64 - 1"
  shows "StartTime (stats (step (run h0 ops) c)) = now \<and>
         unat (RequestsHandled (stats (run h0 ops))) = requests_in ops \<and>
         Errors (stats (run h0 ops)) \<le> RequestsHandled (stats (run h0 ops)) \<and>
         RequestsHandled (stats (run h0 ops)) \<le> RequestsHandled (stats (step (run h0 ops) c)) \<and>
         Errors (stats (run h0 ops)) \<le> Errors (stats (step (run h0 ops) c)) \<and>
         (\<forall>r. c = Request r \<longrightarrow>
            unat (RequestsHandled (stats (step (run h0 ops) c)))
              = unat (RequestsHandled (stats (run h0 ops))) + 1 \<and>
            unat (Errors (stats (step (run h0 ops) c)))
              = unat (Errors (stats (run h0 ops)))
                + (if returns_error (snd (handle (run h0 ops) r)) then 1 else 0)) \<and>
         (c = Tick \<longrightarrow> stats (step (run h0 ops) c) = stats (run h0 ops))"
proof -
  let ?h = "run h0 ops"
  from NewModbusHandler_fresh [OF assms(1)]
  have s0: "stats h0 = \<lparr>RequestsHandled = 0, Errors = 0, StartTime = now\<rparr>" by simp
  from assms(2) s0 have b: "unat (RequestsHandled (stats h0)) + length ops < 2 ^ 64" by simp
  from s0 have e0: "Errors (stats h0) \<le> RequestsHandled (stats h0)" by simp
  from run_stats [OF b e0] s0
  have inv: "Errors (stats ?h) \<le> RequestsHandled (stats ?h)"
    and cnt: "unat (RequestsHandled (stats ?h)) = requests_in ops"
    and st: "StartTime (stats ?h) = now"
    by simp_all
  have "requests_in ops \<le> length ops" by (simp add: requests_in_def)
  with cnt assms(2) have lt: "unat (RequestsHandled (stats ?h)) < 2 ^ 64 - 1" by simp
  from inv have "unat (Errors (stats ?h)) \<le> unat (RequestsHandled (stats ?h))"
    by (simp add: word_le_nat_alt)
  with lt have lte: "unat (Errors (stats ?h)) < 2 ^ 64 - 1" by simp
  show ?thesis
  proof (cases c)
    case Tick
    with inv cnt st show ?thesis by (simp add: UpdateCounter_stats)
  next
    case (Request r)
    with inv cnt st unat_succ64 [OF lt] unat_succ64 [OF lte] show ?thesis
      by (simp add: handle_stats word_le_nat_alt)
  qed
qed

theorem request_statistics_witness:
  "NewModbusHandler small_config [] 0 = Inr small_handler \<and>
   length [Request wrong_unit_read, Tick, Request valid_read] < 2 ^ 64 - 1 \<and>
   unat (RequestsHandled (stats (run small_handler
      [Request wrong_unit_read, Tick, Request valid_read]))) = 2 \<and>
   unat (RequestsHandled (stats (step (run small_handler
      [Request wrong_unit_read, Tick, Request valid_read]) (Request overrun_read)))) = 3 \<and>
   unat (Errors (stats (step (run small_handler
      [Request wrong_unit_read, Tick, Request valid_read]) (Request overrun_read)))) = 2 \<and>
   stats (step (run small_handler [Request wrong_unit_read, Tick, Request valid_read]) Tick)
     = stats (run small_handler [Request wrong_unit_read, Tick, Request valid_read])"
proof -
  let ?ops = "[Request wrong_unit_read, Tick, Request valid_read]"
  have l: "length ?ops < 2 ^ 64 - 1" by simp
  have n: "requests_in ?ops = 2" by (simp add: requests_in_def)
  have e: "unat (Errors (stats (run small_handler ?ops))) = 1" by code_simp
  have r: "returns_error (snd (handle (run small_handler ?ops) overrun_read))" by code_simp
  from request_statistics [OF small_handler_constructed l, of "Request overrun_read"]
       request_statistics [OF small_handler_constructed l, of Tick]
       small_handler_constructed l n e r
  show ?thesis by simp
qed

section \<open>The counter address at construction\<close>

text \<open>
  C7, as stated, fails: with the counter address equal to the table length, construction
  ends in the runtime panic of an index out of range, not in a configuration error.
\<close>

theorem counter_address_out_of_bounds_panics:
  "\<not> uint (CounterAddress unreachable_counter_config)
       < MaxRegisters unreachable_counter_config \<and>
   NewModbusHandler unreachable_counter_config [] 0 = Inl PanicIndexOutOfRange \<and>
   is_panic PanicIndexOutOfRange"
  apply (simp add: unreachable_counter_config_def NewModbusHandler_def)
  done

lemma unat_less_nat_iff: "(unat (x :: uint16) < nat m) = (uint x < m)"
  by (metis nat_less_eq_zless uint_nonnegative unat_eq_nat_uint)

lemma seed_loop_initial:
  assumes "0 \<le> MaxRegisters cfg"
  shows "\<exists>h1. seed_loop
           \<lparr>config = cfg, logger = lg,
            holdingRegs = replicate (nat (MaxRegisters cfg)) 0,
            inputRegs = replicate (nat (MaxRegisters cfg)) 0,
            coils = replicate (nat (MaxRegisters cfg)) False,
            discreteInputs = replicate (nat (MaxRegisters cfg)) False,
            counter = 0,
            stats = \<lparr>RequestsHandled = 0, Errors = 0, StartTime = now\<rparr>\<rparr>
           (InitialData cfg) = Inr h1 \<and> length (holdingRegs h1) = nat (MaxRegisters cfg)"
proof -
  let ?h0 = "\<lparr>config = cfg, logger = lg,
               holdingRegs = replicate (nat (MaxRegisters cfg)) 0,
               inputRegs = replicate (nat (MaxRegisters cfg)) 0,
               coils = replicate (nat (MaxRegisters cfg)) False,
               discreteInputs = replicate (nat (MaxRegisters cfg)) False,
               counter = 0,
               stats = \<lparr>RequestsHandled = 0, Errors = 0, StartTime = now\<rparr>\<rparr>"
  from assms have "sized ?h0" by (simp add: sized_def)
  from seed_loop_safe [OF this] obtain h1 where l: "seed_loop ?h0 (InitialData cfg) = Inr h1"
    by blast
  from seed_loop_frame [OF l] have "length (holdingRegs h1) = nat (MaxRegisters cfg)" by simp
  with l show ?thesis by blast
qed

lemma NewModbusHandler_negative:
  "MaxRegisters cfg < 0 \<Longrightarrow> NewModbusHandler cfg lg now = Inl PanicMakeSliceLen"
  by (simp add: NewModbusHandler_def)

lemma NewModbusHandler_counter_outside:
  assumes "0 \<le> MaxRegisters cfg" and "\<not> uint (CounterAddress cfg) < MaxRegisters cfg"
  shows "NewModbusHandler cfg lg now = Inl PanicIndexOutOfRange"
proof -
  from seed_loop_initial [OF assms(1), of lg now] obtain h1 where
    l: "seed_loop
           \<lparr>config = cfg, logger = lg,
            holdingRegs = replicate (nat (MaxRegisters cfg)) 0,
            inputRegs = replicate (nat (MaxRegisters cfg)) 0,
            coils = replicate (nat (MaxRegisters cfg)) False,
            discreteInputs = replicate (nat (MaxRegisters cfg)) False,
            counter = 0,
            stats = \<lparr>RequestsHandled = 0, Errors = 0, StartTime = now\<rparr>\<rparr>
           (InitialData cfg) = Inr h1"
    and n: "length (holdingRegs h1) = nat (MaxRegisters cfg)"
    by blast
  from assms(2) n have "\<not> unat (CounterAddress cfg) < length (holdingRegs h1)"
    by (simp add: unat_less_nat_iff)
  with assms(1) l show ?thesis
    by (simp add: NewModbusHandler_def Let_def)
qed

lemma NewModbusHandler_succeeds:
  assumes "uint (CounterAddress cfg) < MaxRegisters cfg"
  shows "\<exists>h. NewModbusHandler cfg lg now = Inr h"
proof -
  from assms uint_nonnegative [of "CounterAddress cfg"] have nn: "0 \<le> MaxRegisters cfg"
    by linarith
  from seed_loop_initial [OF nn, of lg now] obtain h1 where
    l: "seed_loop
           \<lparr>config = cfg, logger = lg,
            holdingRegs = replicate (nat (MaxRegisters cfg)) 0,
            inputRegs = replicate (nat (MaxRegisters cfg)) 0,
            coils = replicate (nat (MaxRegisters cfg)) False,
            discreteInputs = replicate (nat (MaxRegisters cfg)) False,
            counter = 0,
            stats = \<lparr>RequestsHandled = 0, Errors = 0, StartTime = now\<rparr>\<rparr>
           (InitialData cfg) = Inr h1"
    and n: "length (holdingRegs h1) = nat (MaxRegisters cfg)"
    by blast
  from assms n have "unat (CounterAddress cfg) < length (holdingRegs h1)"
    by (simp add: unat_less_nat_iff)
  with nn l show ?thesis
    by (simp add: NewModbusHandler_def Let_def)
qed

text \<open>
  C7, amended. If the configured counter address is not less than \<open>MaxRegisters\<close>,
  construction yields no handler and ends in a runtime panic: the index out of range
  of the counter-slot reset after seeding, or, for a negative \<open>MaxRegisters\<close>, the
  length panic of \<open>make\<close>. It returns no error value.
\<close>

theorem counter_address_precondition:
  "\<not> uint (CounterAddress cfg) < MaxRegisters cfg \<Longrightarrow>
     NewModbusHandler cfg lg now =
       Inl (if MaxRegisters cfg < 0 then PanicMakeSliceLen else PanicIndexOutOfRange) \<and>
     is_panic (if MaxRegisters cfg < 0 then PanicMakeSliceLen else PanicIndexOutOfRange)"
  using NewModbusHandler_negative [of cfg lg now] NewModbusHandler_counter_outside [of cfg lg now]
  by (cases "MaxRegisters cfg < 0") simp_all

theorem counter_address_precondition_witness:
  "\<not> uint (CounterAddress unreachable_counter_config)
       < MaxRegisters unreachable_counter_config \<and>
   NewModbusHandler unreachable_counter_config [(Info, ''Starting Modbus server'')] 7
     = Inl PanicIndexOutOfRange"
proof -
  have h: "\<not> uint (CounterAddress unreachable_counter_config)
       < MaxRegisters unreachable_counter_config"
    by (simp add: unreachable_counter_config_def)
  have m: "\<not> MaxRegisters unreachable_counter_config < 0"
    by (simp add: unreachable_counter_config_def)
  from h m counter_address_precondition [OF h, of "[(Info, ''Starting Modbus server'')]" 7]
  show ?thesis by simp
qed

section \<open>Seed entries\<close>

text \<open>
  In a table of at most 65535 slots, a seed entry whose address is not below
  \<open>MaxRegisters\<close> is skipped with a warning, an entry of an unrecognised kind is
  skipped with a warning, and every other entry is stored in its table.
\<close>

lemma seed_entry_small:
  assumes "sized h" and "MaxRegisters (config h) \<le> 65535"
  shows "seed_entry h d =
     Inr (if MaxRegisters (config h) \<le> uint (Address d)
          then log_call Warn ''Initial data address out of bounds, skipping'' h
          else if Type d = ''holding''
          then h\<lparr>holdingRegs := (holdingRegs h)[unat (Address d) := Value d]\<rparr>
          else if Type d = ''input''
          then h\<lparr>inputRegs := (inputRegs h)[unat (Address d) := Value d]\<rparr>
          else if Type d = ''coil''
          then h\<lparr>coils := (coils h)[unat (Address d) := (Value d \<noteq> 0)]\<rparr>
          else if Type d = ''discrete''
          then h\<lparr>discreteInputs := (discreteInputs h)[unat (Address d) := (Value d \<noteq> 0)]\<rparr>
          else log_call Warn ''Unknown initial data type in config, skipping'' h)"
proof -
  from assms have nn: "0 \<le> MaxRegisters (config h)" by (simp add: sized_def)
  note t = skip_test_exact [OF nn assms(2), of "Address d"]
  show ?thesis
  proof (cases "MaxRegisters (config h) \<le> uint (Address d)")
    case True
    with t show ?thesis by (simp add: seed_entry_def)
  next
    case False
    then have "uint (Address d) < MaxRegisters (config h)" by simp
    then have "unat (Address d) < nat (MaxRegisters (config h))"
      by (simp only: unat_less_nat_iff)
    with assms(1) False t show ?thesis by (simp add: seed_entry_def sized_def)
  qed
qed

text \<open>
  C5 at \<open>MaxRegisters = 65536\<close>: the conversion \<open>uint16(config.MaxRegisters)\<close>
  is 0, so the seed entry for holding register 100, an address within the table, is
  skipped with the out-of-bounds warning and the register keeps the value 0.
\<close>

theorem in_range_seed_skipped:
  "uint (100 :: uint16) < MaxRegisters full_range_config \<and>
   map_sum id (\<lambda>h. (holdingRegs h ! 100, logger h)) (NewModbusHandler full_range_config [] 0)
     = Inr (0, [(Warn, ''Initial data address out of bounds, skipping''),
                (Info, ''Handler initialized'')])"
  by (simp add: full_range_config_def NewModbusHandler_def seed_entry_def log_call_def)

section \<open>Counter increments\<close>

lemma UpdateCounter_in_range:
  assumes "unat (CounterAddress (config h)) < length (holdingRegs h)"
  shows "snd (UpdateCounter h) = Inr () \<and>
         config (fst (UpdateCounter h)) = config h \<and>
         counter (fst (UpdateCounter h)) = (if counter h + 1 = 0 then 1 else counter h + 1) \<and>
         holdingRegs (fst (UpdateCounter h))
           = (holdingRegs h)[unat (CounterAddress (config h)) := counter (fst (UpdateCounter h))] \<and>
         logger (fst (UpdateCounter h))
           = logger h @ (if counter h + 1 = 0 then [(Warn, ''Counter overflow, resetting'')] else [])
               @ [(Debug, ''Counter updated'')] \<and>
         inputRegs (fst (UpdateCounter h)) = inputRegs h \<and>
         coils (fst (UpdateCounter h)) = coils h \<and>
         discreteInputs (fst (UpdateCounter h)) = discreteInputs h"
  using assms by (simp add: UpdateCounter_def log_call_def Let_def)








section \<open>Write followed by read\<close>

lemma holding_loop_single:
  "unat (Quantity req) = 1 \<Longrightarrow>
     holding_loop h req 0 [] =
       (case holding_body h req 0 of
          (h', Inl e) \<Rightarrow> (h', Inl e)
        | (h', Inr v) \<Rightarrow> (h', Inr [v]))"
  by (simp add: holding_loop.simps [of _ req 0] holding_loop.simps [of _ req "Suc 0"]
      split: prod.splits sum.splits)

lemma coils_loop_single:
  "unat (Quantity req) = 1 \<Longrightarrow>
     coils_loop h req 0 [] =
       (case coils_body h req 0 of
          (h', Inl e) \<Rightarrow> (h', Inl e)
        | (h', Inr v) \<Rightarrow> (h', Inr [v]))"
  by (simp add: coils_loop.simps [of _ req 0] coils_loop.simps [of _ req "Suc 0"]
      split: prod.splits sum.splits)

lemma bounds_check_one [simp]: "(int n \<le> uint (a :: uint16)) = (n \<le> unat a)"
  by (metis of_nat_le_iff uint_nat)

lemma write_holding_plain:
  assumes "unat a < length (holdingRegs h)" and "a \<noteq> CounterAddress (config h)"
  shows "HandleHoldingRegisters h (write_one (UnitID (config h)) a v) =
           (log_call Debug ''Holding registers handled''
              (log_call Debug ''Register written''
                 ((count_request h)\<lparr>holdingRegs := (holdingRegs h)[unat a := v]\<rparr>)),
            Inr [v])"
  using assms
  by (simp add: HandleHoldingRegisters_def holding_loop_single holding_body_def write_one_def
      count_request_def log_call_def Let_def)

lemma write_holding_counter:
  assumes "unat a < length (holdingRegs h)" and "a = CounterAddress (config h)"
  shows "HandleHoldingRegisters h (write_one (UnitID (config h)) a v) =
           (log_call Debug ''Holding registers handled'' (count_request h),
            Inr [holdingRegs h ! unat a])"
  using assms
  by (simp add: HandleHoldingRegisters_def holding_loop_single holding_body_def write_one_def
      count_request_def log_call_def Let_def)

lemma read_holding:
  assumes "unat a < length (holdingRegs h)"
  shows "snd (HandleHoldingRegisters h (read_one (UnitID (config h)) a)) = Inr [holdingRegs h ! unat a]"
  using assms
  by (simp add: HandleHoldingRegisters_def holding_loop_single holding_body_def read_one_def
      count_request_def log_call_def Let_def)

lemma write_coil:
  assumes "unat a < length (coils h)"
  shows "HandleCoils h (write_one (UnitID (config h)) a b) =
           ((count_request h)\<lparr>coils := (coils h)[unat a := b]\<rparr>, Inr [b])"
  using assms
  by (simp add: HandleCoils_def coils_loop_single coils_body_def write_one_def
      count_request_def Let_def)

lemma read_coil:
  assumes "unat a < length (coils h)"
  shows "snd (HandleCoils h (read_one (UnitID (config h)) a)) = Inr [coils h ! unat a]"
  using assms
  by (simp add: HandleCoils_def coils_loop_single coils_body_def read_one_def
      count_request_def Let_def)

lemma UpdateCounter_mirror:
  assumes "unat (CounterAddress (config h)) < length (holdingRegs h)"
  shows "config (fst (UpdateCounter h)) = config h \<and>
         length (holdingRegs (fst (UpdateCounter h))) = length (holdingRegs h) \<and>
         holdingRegs (fst (UpdateCounter h)) ! unat (CounterAddress (config h))
           = counter (fst (UpdateCounter h))"
  using UpdateCounter_in_range [OF assms] assms by simp

text \<open>
  Single-register requests, as the tests issue them. With the configured unit id and an
  address \<open>a\<close> inside the table: writing one value to a holding register other than
  the counter address, or to a coil, succeeds, and the read of \<open>a\<close> that follows
  returns that value. At the counter address the write succeeds too, but leaves
  \<open>holdingRegs\<close> and the counter as they were; the read that follows returns the
  value stored before the write, and when the write comes after a call of
  \<open>UpdateCounter\<close>, the read returns the counter value that call set.
\<close>

lemma single_write_then_read:
  assumes "u = UnitID (config h)"
  shows "(unat a < length (holdingRegs h) \<and> a \<noteq> CounterAddress (config h) \<longrightarrow>
            snd (HandleHoldingRegisters h (write_one u a v)) = Inr [v] \<and>
            snd (HandleHoldingRegisters (fst (HandleHoldingRegisters h (write_one u a v)))
                   (read_one u a)) = Inr [v]) \<and>
         (unat a < length (coils h) \<longrightarrow>
            snd (HandleCoils h (write_one u a b)) = Inr [b] \<and>
            snd (HandleCoils (fst (HandleCoils h (write_one u a b))) (read_one u a)) = Inr [b]) \<and>
         (unat a < length (holdingRegs h) \<and> a = CounterAddress (config h) \<longrightarrow>
            holdingRegs (fst (HandleHoldingRegisters h (write_one u a v))) = holdingRegs h \<and>
            counter (fst (HandleHoldingRegisters h (write_one u a v))) = counter h \<and>
            snd (HandleHoldingRegisters (fst (HandleHoldingRegisters h (write_one u a v)))
                   (read_one u a)) = Inr [holdingRegs h ! unat a] \<and>
            snd (HandleHoldingRegisters
                   (fst (HandleHoldingRegisters (fst (UpdateCounter h)) (write_one u a v)))
                   (read_one u a)) = Inr [counter (fst (UpdateCounter h))])"
proof (intro conjI impI)
  assume r: "unat a < length (holdingRegs h) \<and> a \<noteq> CounterAddress (config h)"
  let ?h = "fst (HandleHoldingRegisters h (write_one u a v))"
  from r have r1: "unat a < length (holdingRegs h)" and r2: "a \<noteq> CounterAddress (config h)"
    by blast+
  from write_holding_plain [OF r1 r2, of v] assms
  have w: "HandleHoldingRegisters h (write_one u a v) =
             (log_call Debug ''Holding registers handled''
                (log_call Debug ''Register written''
                   ((count_request h)\<lparr>holdingRegs := (holdingRegs h)[unat a := v]\<rparr>)),
              Inr [v])"
    by simp
  then show "snd (HandleHoldingRegisters h (write_one u a v)) = Inr [v]" by simp
  from w have c: "config ?h = config h"
    by (simp add: log_call_def count_request_def)
  from w r1 have l: "unat a < length (holdingRegs ?h)"
    by (simp add: log_call_def count_request_def)
  from w r1 have e: "holdingRegs ?h ! unat a = v"
    by (simp add: log_call_def count_request_def)
  from read_holding [OF l] c e assms
  show "snd (HandleHoldingRegisters ?h (read_one u a)) = Inr [v]" by simp
next
  assume r: "unat a < length (coils h)"
  let ?h = "fst (HandleCoils h (write_one u a b))"
  from write_coil [OF r, of b] assms
  have w: "HandleCoils h (write_one u a b) =
             ((count_request h)\<lparr>coils := (coils h)[unat a := b]\<rparr>, Inr [b])"
    by simp
  then show "snd (HandleCoils h (write_one u a b)) = Inr [b]" by simp
  from w have c: "config ?h = config h" by (simp add: count_request_def)
  from w r have l: "unat a < length (coils ?h)" by (simp add: count_request_def)
  from w r have e: "coils ?h ! unat a = b" by (simp add: count_request_def)
  from read_coil [OF l] c e assms
  show "snd (HandleCoils ?h (read_one u a)) = Inr [b]" by simp
next
  assume r: "unat a < length (holdingRegs h) \<and> a = CounterAddress (config h)"
  let ?h = "fst (HandleHoldingRegisters h (write_one u a v))"
  from r have r1: "unat a < length (holdingRegs h)" and r2: "a = CounterAddress (config h)"
    by blast+
  from write_holding_counter [OF r1 r2, of v] assms
  have w: "?h = log_call Debug ''Holding registers handled'' (count_request h)"
    by simp
  then show t: "holdingRegs ?h = holdingRegs h"
    by (simp add: log_call_def count_request_def)
  from w show "counter ?h = counter h"
    by (simp add: log_call_def count_request_def)
  from w have c: "config ?h = config h" by (simp add: log_call_def count_request_def)
  from t r1 have l: "unat a < length (holdingRegs ?h)" by simp
  from read_holding [OF l] c t assms
  show "snd (HandleHoldingRegisters ?h (read_one u a)) = Inr [holdingRegs h ! unat a]"
    by simp
next
  assume r: "unat a < length (holdingRegs h) \<and> a = CounterAddress (config h)"
  let ?t = "fst (UpdateCounter h)"
  let ?h = "fst (HandleHoldingRegisters ?t (write_one u a v))"
  from r have r1: "unat a < length (holdingRegs h)" and a: "a = CounterAddress (config h)"
    by blast+
  from r1 a have "unat (CounterAddress (config h)) < length (holdingRegs h)" by simp
  from UpdateCounter_mirror [OF this] r1 a
  have c: "config ?t = config h" and l: "unat a < length (holdingRegs ?t)"
    and m: "holdingRegs ?t ! unat a = counter ?t"
    by simp_all
  from a c have r2: "a = CounterAddress (config ?t)" by simp
  from write_holding_counter [OF l r2, of v] c assms
  have w: "?h = log_call Debug ''Holding registers handled'' (count_request ?t)"
    by simp
  from w c have c': "config ?h = config h" by (simp add: log_call_def count_request_def)
  from w have t: "holdingRegs ?h = holdingRegs ?t" by (simp add: log_call_def count_request_def)
  from t l have l': "unat a < length (holdingRegs ?h)" by simp
  from read_holding [OF l'] c' t m assms
  show "snd (HandleHoldingRegisters ?h (read_one u a)) = Inr [counter ?t]"
    by simp
qed

lemma single_write_then_read_example:
  "(1 :: uint8) = UnitID (config small_handler) \<and>
   unat (1 :: uint16) < length (holdingRegs small_handler) \<and>
   (1 :: uint16) \<noteq> CounterAddress (config small_handler) \<and>
   snd (HandleHoldingRegisters (fst (HandleHoldingRegisters small_handler (write_one 1 1 12345)))
          (read_one 1 1)) = Inr [12345] \<and>
   unat (1 :: uint16) < length (coils small_handler) \<and>
   snd (HandleCoils (fst (HandleCoils small_handler (write_one 1 1 True))) (read_one 1 1))
     = Inr [True] \<and>
   unat (2 :: uint16) < length (holdingRegs small_handler) \<and>
   (2 :: uint16) = CounterAddress (config small_handler) \<and>
   snd (HandleHoldingRegisters
          (fst (HandleHoldingRegisters (fst (UpdateCounter small_handler)) (write_one 1 2 999)))
          (read_one 1 2)) = Inr [1]"
proof -
  have u: "(1 :: uint8) = UnitID (config small_handler)"
    by (simp add: small_handler_def small_config_def)
  have r1: "unat (1 :: uint16) < length (holdingRegs small_handler) \<and>
            (1 :: uint16) \<noteq> CounterAddress (config small_handler)"
    by (simp add: small_handler_def small_config_def)
  have r2: "unat (1 :: uint16) < length (coils small_handler)"
    by (simp add: small_handler_def)
  have r3: "unat (2 :: uint16) < length (holdingRegs small_handler) \<and>
            (2 :: uint16) = CounterAddress (config small_handler)"
    by (simp add: small_handler_def small_config_def)
  have c: "counter (fst (UpdateCounter small_handler)) = 1"
    by (simp add: UpdateCounter_def small_handler_def small_config_def log_call_def Let_def)
  from single_write_then_read [OF u, of 1 12345 True] single_write_then_read [OF u, of 2 999 True]
       u r1 r2 r3 c
  show ?thesis by simp
qed

section \<open>Indexing of the written values\<close>

lemma ex_from_split:
  "(\<exists>j. i \<le> j \<and> Q j) = (Q i \<or> (\<exists>j. i + 1 \<le> j \<and> Q (j :: nat)))"
proof
  assume "\<exists>j. i \<le> j \<and> Q j"
  then obtain j where j: "i \<le> j" "Q j" by blast
  then show "Q i \<or> (\<exists>j. i + 1 \<le> j \<and> Q j)" by (cases "j = i") auto
next
  assume "Q i \<or> (\<exists>j. i + 1 \<le> j \<and> Q j)"
  then show "\<exists>j. i \<le> j \<and> Q j"
  proof
    assume "Q i" then show ?thesis by blast
  next
    assume "\<exists>j. i + 1 \<le> j \<and> Q j"
    then obtain j where "i + 1 \<le> j" "Q j" by blast
    then have "i \<le> j \<and> Q j" by simp
    then show ?thesis by blast
  qed
qed

lemma holding_body_panic_iff:
  assumes "unat (Addr req) + i < length (holdingRegs h)"
  shows "(snd (holding_body h req i) = Inl PanicIndexOutOfRange) =
           (IsWrite req \<and> (word_of_nat (unat (Addr req) + i) :: uint16) \<noteq> CounterAddress (config h)
            \<and> length (Args req) \<le> i)"
  using assms by (auto simp: holding_body_def log_call_def Let_def)

lemma holding_loop_panic_iff:
  assumes "unat (Addr req) + unat (Quantity req) \<le> length (holdingRegs h)"
  shows "(snd (holding_loop h req i res) = Inl PanicIndexOutOfRange) =
           (IsWrite req \<and>
            (\<exists>j. i \<le> j \<and> j < unat (Quantity req) \<and> length (Args req) \<le> j \<and>
                 (word_of_nat (unat (Addr req) + j) :: uint16) \<noteq> CounterAddress (config h)))"
  using assms
proof (induction h req i res rule: holding_loop.induct)
  case (1 h req i res)
  show ?case
  proof (cases "i < unat (Quantity req)")
    case False
    then show ?thesis by (simp add: holding_loop.simps [of h req i res])
  next
    case True
    with "1.prems" have r: "unat (Addr req) + i < length (holdingRegs h)" by simp
    obtain h1 r1 where b: "holding_body h req i = (h1, r1)" by (cases "holding_body h req i")
    note f = holding_body_frame [OF b]
    note p = holding_body_panic_iff [OF r]
    show ?thesis
    proof (cases r1)
      case (Inl e)
      with b holding_body_panic have e: "e = PanicIndexOutOfRange" by blast
      with Inl b True have "snd (holding_loop h req i res) = Inl PanicIndexOutOfRange"
        by (simp add: holding_loop.simps [of h req i res])
      moreover from Inl e b p have "IsWrite req \<and>
          (word_of_nat (unat (Addr req) + i) :: uint16) \<noteq> CounterAddress (config h) \<and>
          length (Args req) \<le> i"
        by simp
      ultimately show ?thesis using True by blast
    next
      case (Inr v)
      with b p have np: "\<not> (IsWrite req \<and>
          (word_of_nat (unat (Addr req) + i) :: uint16) \<noteq> CounterAddress (config h) \<and>
          length (Args req) \<le> i)"
        by simp
      from f "1.prems" have "unat (Addr req) + unat (Quantity req) \<le> length (holdingRegs h1)"
        by simp
      from "1.IH" [OF True b [symmetric] Inr this] f
      have ih: "(snd (holding_loop h1 req (i + 1) (res @ [v])) = Inl PanicIndexOutOfRange) =
           (IsWrite req \<and>
            (\<exists>j. i + 1 \<le> j \<and> j < unat (Quantity req) \<and> length (Args req) \<le> j \<and>
                 (word_of_nat (unat (Addr req) + j) :: uint16) \<noteq> CounterAddress (config h)))"
        by simp
      from Inr b True have "holding_loop h req i res = holding_loop h1 req (i + 1) (res @ [v])"
        by (simp add: holding_loop.simps [of h req i res])
      with ih have "(snd (holding_loop h req i res) = Inl PanicIndexOutOfRange) =
           (IsWrite req \<and>
            (\<exists>j. i + 1 \<le> j \<and> j < unat (Quantity req) \<and> length (Args req) \<le> j \<and>
                 (word_of_nat (unat (Addr req) + j) :: uint16) \<noteq> CounterAddress (config h)))"
        by simp
      also have "\<dots> = (IsWrite req \<and>
            (\<exists>j. i \<le> j \<and> j < unat (Quantity req) \<and> length (Args req) \<le> j \<and>
                 (word_of_nat (unat (Addr req) + j) :: uint16) \<noteq> CounterAddress (config h)))"
        using np True
        by (subst ex_from_split
              [of i "\<lambda>j. j < unat (Quantity req) \<and> length (Args req) \<le> j \<and>
                 (word_of_nat (unat (Addr req) + j) :: uint16) \<noteq> CounterAddress (config h)"])
           blast
      finally show ?thesis .
    qed
  qed
qed

lemma coils_body_panic_iff:
  assumes "unat (Addr req) + i < length (coils h)"
  shows "(snd (coils_body h req i) = Inl PanicIndexOutOfRange) =
           (IsWrite req \<and> length (Args req) \<le> i)"
  using assms by (auto simp: coils_body_def Let_def)

lemma coils_loop_panic_iff:
  assumes "unat (Addr req) + unat (Quantity req) \<le> length (coils h)"
  shows "(snd (coils_loop h req i res) = Inl PanicIndexOutOfRange) =
           (IsWrite req \<and> (\<exists>j. i \<le> j \<and> j < unat (Quantity req) \<and> length (Args req) \<le> j))"
  using assms
proof (induction h req i res rule: coils_loop.induct)
  case (1 h req i res)
  show ?case
  proof (cases "i < unat (Quantity req)")
    case False
    then show ?thesis by (simp add: coils_loop.simps [of h req i res])
  next
    case True
    with "1.prems" have r: "unat (Addr req) + i < length (coils h)" by simp
    obtain h1 r1 where b: "coils_body h req i = (h1, r1)" by (cases "coils_body h req i")
    note f = coils_body_frame [OF b]
    note p = coils_body_panic_iff [OF r]
    show ?thesis
    proof (cases r1)
      case (Inl e)
      with b coils_body_panic have e: "e = PanicIndexOutOfRange" by blast
      with Inl b True have "snd (coils_loop h req i res) = Inl PanicIndexOutOfRange"
        by (simp add: coils_loop.simps [of h req i res])
      moreover from Inl e b p have "IsWrite req \<and> length (Args req) \<le> i" by simp
      ultimately show ?thesis using True by blast
    next
      case (Inr v)
      with b p have np: "\<not> (IsWrite req \<and> length (Args req) \<le> i)" by simp
      from f "1.prems" have "unat (Addr req) + unat (Quantity req) \<le> length (coils h1)"
        by simp
      from "1.IH" [OF True b [symmetric] Inr this]
      have ih: "(snd (coils_loop h1 req (i + 1) (res @ [v])) = Inl PanicIndexOutOfRange) =
           (IsWrite req \<and>
            (\<exists>j. i + 1 \<le> j \<and> j < unat (Quantity req) \<and> length (Args req) \<le> j))" .
      from Inr b True have "coils_loop h req i res = coils_loop h1 req (i + 1) (res @ [v])"
        by (simp add: coils_loop.simps [of h req i res])
      with ih have "(snd (coils_loop h req i res) = Inl PanicIndexOutOfRange) =
           (IsWrite req \<and>
            (\<exists>j. i + 1 \<le> j \<and> j < unat (Quantity req) \<and> length (Args req) \<le> j))"
        by simp
      also have "\<dots> = (IsWrite req \<and>
            (\<exists>j. i \<le> j \<and> j < unat (Quantity req) \<and> length (Args req) \<le> j))"
        using np True
        by (subst ex_from_split
              [of i "\<lambda>j. j < unat (Quantity req) \<and> length (Args req) \<le> j"])
           blast
      finally show ?thesis .
    qed
  qed
qed

lemma sum_result_cases:
  assumes "\<And>e. x = Inl e \<Longrightarrow> e = PanicIndexOutOfRange"
  shows "x = Inl PanicIndexOutOfRange \<or> (\<exists>res. x = Inr res)"
  using assms by (cases x) auto

lemma HandleHoldingRegisters_checked:
  assumes "UnitId q = UnitID (config h)"
    and "unat (Addr q) + unat (Quantity q) \<le> length (holdingRegs h)"
  shows "(snd (HandleHoldingRegisters h q) = Inl PanicIndexOutOfRange) =
           (IsWrite q \<and>
            (\<exists>i. length (Args q) \<le> i \<and> i < unat (Quantity q) \<and>
                 (word_of_nat (unat (Addr q) + i) :: uint16) \<noteq> CounterAddress (config h)))"
    and "snd (HandleHoldingRegisters h q) = Inl PanicIndexOutOfRange \<or>
         (\<exists>res. snd (HandleHoldingRegisters h q) = Inr res)"
proof -
  let ?h = "count_request h"
  obtain h' x where l: "holding_loop ?h q 0 [] = (h', x)" by (cases "holding_loop ?h q 0 []")
  from assms l have s: "snd (HandleHoldingRegisters h q) = x"
    by (cases x) (simp_all add: HandleHoldingRegisters_def count_request_def Let_def)
  from assms(2) have "unat (Addr q) + unat (Quantity q) \<le> length (holdingRegs ?h)"
    by (simp add: count_request_def)
  from holding_loop_panic_iff [OF this, of 0 "[]"] l s
  show "(snd (HandleHoldingRegisters h q) = Inl PanicIndexOutOfRange) =
           (IsWrite q \<and>
            (\<exists>i. length (Args q) \<le> i \<and> i < unat (Quantity q) \<and>
                 (word_of_nat (unat (Addr q) + i) :: uint16) \<noteq> CounterAddress (config h)))"
    by (auto simp add: count_request_def)
  from holding_loop_error l have "\<And>e. x = Inl e \<Longrightarrow> e = PanicIndexOutOfRange" by blast
  from sum_result_cases [OF this] s
  show "snd (HandleHoldingRegisters h q) = Inl PanicIndexOutOfRange \<or>
         (\<exists>res. snd (HandleHoldingRegisters h q) = Inr res)"
    by simp
qed

lemma HandleCoils_checked:
  assumes "UnitId q = UnitID (config h)"
    and "unat (Addr q) + unat (Quantity q) \<le> length (coils h)"
  shows "(snd (HandleCoils h q) = Inl PanicIndexOutOfRange) =
           (IsWrite q \<and> length (Args q) < unat (Quantity q))"
    and "snd (HandleCoils h q) = Inl PanicIndexOutOfRange \<or>
         (\<exists>res. snd (HandleCoils h q) = Inr res)"
proof -
  let ?h = "count_request h"
  obtain h' x where l: "coils_loop ?h q 0 [] = (h', x)" by (cases "coils_loop ?h q 0 []")
  from assms l have s: "snd (HandleCoils h q) = x"
    by (simp add: HandleCoils_def count_request_def Let_def)
  from assms(2) have "unat (Addr q) + unat (Quantity q) \<le> length (coils ?h)"
    by (simp add: count_request_def)
  from coils_loop_panic_iff [OF this, of 0 "[]"] l s
  have "(snd (HandleCoils h q) = Inl PanicIndexOutOfRange) =
          (IsWrite q \<and> (\<exists>j. j < unat (Quantity q) \<and> length (Args q) \<le> j))"
    by simp
  also have "(\<exists>j. j < unat (Quantity q) \<and> length (Args q) \<le> j)
               = (length (Args q) < unat (Quantity q))"
    by auto
  finally show "(snd (HandleCoils h q) = Inl PanicIndexOutOfRange) =
           (IsWrite q \<and> length (Args q) < unat (Quantity q))" .
  from coils_loop_error l have "\<And>e. x = Inl e \<Longrightarrow> e = PanicIndexOutOfRange" by blast
  from sum_result_cases [OF this] s
  show "snd (HandleCoils h q) = Inl PanicIndexOutOfRange \<or>
         (\<exists>res. snd (HandleCoils h q) = Inr res)"
    by simp
qed

text \<open>
  C10, as stated, fails in its last part: a holding-register write of quantity 1 at the
  counter address with no value in \<open>Args\<close> passes both checks, has fewer values than
  its quantity, and still returns normally, because the protected position never reads
  \<open>Args\<close>.
\<close>

theorem short_args_at_counter_address:
  "UnitId counter_write_no_args = UnitID (config small_handler) \<and>
   unat (Addr counter_write_no_args) + unat (Quantity counter_write_no_args)
     \<le> length (holdingRegs small_handler) \<and>
   IsWrite counter_write_no_args \<and>
   length (Args counter_write_no_args) < unat (Quantity counter_write_no_args) \<and>
   snd (HandleHoldingRegisters small_handler counter_write_no_args) = Inr [0]"
  by (simp add: counter_write_no_args_def small_handler_def small_config_def
      HandleHoldingRegisters_def holding_loop_single holding_body_def count_request_def
      log_call_def Let_def)

text \<open>
  C10, amended. For a request that passes the unit-id and bounds checks:
  \<open>HandleHoldingRegisters\<close> and \<open>HandleCoils\<close> return normally whenever
  \<open>Args\<close> holds at least \<open>Quantity\<close> values, so no index is out of range then.
  The count of \<open>Args\<close> is not checked. \<open>HandleCoils\<close> panics with an index out of
  range exactly for the writes with fewer values than the quantity;
  \<open>HandleHoldingRegisters\<close> panics exactly for the writes in which some position
  without a value has an address (as 16 bits) other than the counter address.
\<close>

theorem args_indexing:
  "(UnitId q = UnitID (config h) \<and>
    unat (Addr q) + unat (Quantity q) \<le> length (holdingRegs h) \<longrightarrow>
      (unat (Quantity q) \<le> length (Args q) \<longrightarrow>
         (\<exists>res. snd (HandleHoldingRegisters h q) = Inr res)) \<and>
      (snd (HandleHoldingRegisters h q) = Inl PanicIndexOutOfRange) =
         (IsWrite q \<and>
          (\<exists>i. length (Args q) \<le> i \<and> i < unat (Quantity q) \<and>
               (word_of_nat (unat (Addr q) + i) :: uint16) \<noteq> CounterAddress (config h)))) \<and>
   (UnitId c = UnitID (config h) \<and>
    unat (Addr c) + unat (Quantity c) \<le> length (coils h) \<longrightarrow>
      (unat (Quantity c) \<le> length (Args c) \<longrightarrow> (\<exists>res. snd (HandleCoils h c) = Inr res)) \<and>
      (snd (HandleCoils h c) = Inl PanicIndexOutOfRange) =
         (IsWrite c \<and> length (Args c) < unat (Quantity c)))"
proof (intro conjI impI)
  assume a: "UnitId q = UnitID (config h) \<and>
             unat (Addr q) + unat (Quantity q) \<le> length (holdingRegs h)"
  then have u: "UnitId q = UnitID (config h)"
    and r: "unat (Addr q) + unat (Quantity q) \<le> length (holdingRegs h)"
    by blast+
  note c1 = HandleHoldingRegisters_checked(1) [OF u r]
  note c2 = HandleHoldingRegisters_checked(2) [OF u r]
  show "(snd (HandleHoldingRegisters h q) = Inl PanicIndexOutOfRange) =
         (IsWrite q \<and>
          (\<exists>i. length (Args q) \<le> i \<and> i < unat (Quantity q) \<and>
               (word_of_nat (unat (Addr q) + i) :: uint16) \<noteq> CounterAddress (config h)))"
    by (rule c1)
  assume "unat (Quantity q) \<le> length (Args q)"
  then have "\<not> (\<exists>i. length (Args q) \<le> i \<and> i < unat (Quantity q) \<and>
               (word_of_nat (unat (Addr q) + i) :: uint16) \<noteq> CounterAddress (config h))"
    by auto
  with c1 c2 show "\<exists>res. snd (HandleHoldingRegisters h q) = Inr res" by blast
next
  assume a: "UnitId c = UnitID (config h) \<and>
             unat (Addr c) + unat (Quantity c) \<le> length (coils h)"
  then have u: "UnitId c = UnitID (config h)"
    and r: "unat (Addr c) + unat (Quantity c) \<le> length (coils h)"
    by blast+
  note c1 = HandleCoils_checked(1) [OF u r]
  note c2 = HandleCoils_checked(2) [OF u r]
  show "(snd (HandleCoils h c) = Inl PanicIndexOutOfRange) =
         (IsWrite c \<and> length (Args c) < unat (Quantity c))"
    by (rule c1)
  assume "unat (Quantity c) \<le> length (Args c)"
  with c1 c2 show "\<exists>res. snd (HandleCoils h c) = Inr res" by auto
qed

theorem args_indexing_witness:
  "UnitId holding_write_full = UnitID (config small_handler) \<and>
   unat (Addr holding_write_full) + unat (Quantity holding_write_full)
     \<le> length (holdingRegs small_handler) \<and>
   unat (Quantity holding_write_full) \<le> length (Args holding_write_full) \<and>
   (\<exists>res. snd (HandleHoldingRegisters small_handler holding_write_full) = Inr res) \<and>
   UnitId holding_write_short = UnitID (config small_handler) \<and>
   unat (Addr holding_write_short) + unat (Quantity holding_write_short)
     \<le> length (holdingRegs small_handler) \<and>
   IsWrite holding_write_short \<and>
   length (Args holding_write_short) < unat (Quantity holding_write_short) \<and>
   snd (HandleHoldingRegisters small_handler holding_write_short) = Inl PanicIndexOutOfRange \<and>
   UnitId coil_write_full = UnitID (config small_handler) \<and>
   unat (Addr coil_write_full) + unat (Quantity coil_write_full) \<le> length (coils small_handler) \<and>
   unat (Quantity coil_write_full) \<le> length (Args coil_write_full) \<and>
   (\<exists>res. snd (HandleCoils small_handler coil_write_full) = Inr res) \<and>
   UnitId coil_write_no_args = UnitID (config small_handler) \<and>
   unat (Addr coil_write_no_args) + unat (Quantity coil_write_no_args)
     \<le> length (coils small_handler) \<and>
   IsWrite coil_write_no_args \<and>
   length (Args coil_write_no_args) < unat (Quantity coil_write_no_args) \<and>
   snd (HandleCoils small_handler coil_write_no_args) = Inl PanicIndexOutOfRange"
proof -
  have hf: "UnitId holding_write_full = UnitID (config small_handler) \<and>
            unat (Addr holding_write_full) + unat (Quantity holding_write_full)
              \<le> length (holdingRegs small_handler)"
    and hfa: "unat (Quantity holding_write_full) \<le> length (Args holding_write_full)"
    by (simp_all add: holding_write_full_def small_handler_def small_config_def)
  have hs: "UnitId holding_write_short = UnitID (config small_handler) \<and>
            unat (Addr holding_write_short) + unat (Quantity holding_write_short)
              \<le> length (holdingRegs small_handler)"
    and hsa: "IsWrite holding_write_short \<and>
              length (Args holding_write_short) < unat (Quantity holding_write_short)"
    by (simp_all add: holding_write_short_def small_handler_def small_config_def)
  have hsm: "\<exists>i. length (Args holding_write_short) \<le> i \<and> i < unat (Quantity holding_write_short) \<and>
               (word_of_nat (unat (Addr holding_write_short) + i) :: uint16)
                 \<noteq> CounterAddress (config small_handler)"
    by (rule exI [of _ 2])
       (simp add: holding_write_short_def small_handler_def small_config_def)
  have cf: "UnitId coil_write_full = UnitID (config small_handler) \<and>
            unat (Addr coil_write_full) + unat (Quantity coil_write_full)
              \<le> length (coils small_handler)"
    and cfa: "unat (Quantity coil_write_full) \<le> length (Args coil_write_full)"
    by (simp_all add: coil_write_full_def small_handler_def small_config_def)
  have cs: "UnitId coil_write_no_args = UnitID (config small_handler) \<and>
            unat (Addr coil_write_no_args) + unat (Quantity coil_write_no_args)
              \<le> length (coils small_handler)"
    and csa: "IsWrite coil_write_no_args \<and>
              length (Args coil_write_no_args) < unat (Quantity coil_write_no_args)"
    by (simp_all add: coil_write_no_args_def small_handler_def small_config_def)
  from args_indexing [of holding_write_full small_handler coil_write_full]
       args_indexing [of holding_write_short small_handler coil_write_no_args]
       hf hfa hs hsa hsm cf cfa cs csa
  show ?thesis by blast
qed

section \<open>Writes and reads of any quantity\<close>

lemma holding_body_result:
  assumes "holding_body h req i = (h1, Inr v)"
  shows "holdingRegs h1 =
           (if IsWrite req \<and>
               (word_of_nat (unat (Addr req) + i) :: uint16) \<noteq> CounterAddress (config h)
            then (holdingRegs h)[unat (Addr req) + i := Args req ! i]
            else holdingRegs h) \<and>
         v = holdingRegs h1 ! (unat (Addr req) + i)"
  using assms by (auto simp: holding_body_def log_call_def Let_def split: if_splits)

lemma holding_loop_result:
  assumes "holding_loop h req i res = (h', Inr r)"
    and "unat (Addr req) + unat (Quantity req) \<le> length (holdingRegs h)"
  shows "(\<forall>k < length (holdingRegs h).
            holdingRegs h' ! k =
              (if unat (Addr req) + i \<le> k \<and> k < unat (Addr req) + unat (Quantity req) \<and>
                  IsWrite req \<and> (word_of_nat k :: uint16) \<noteq> CounterAddress (config h)
               then Args req ! (k - unat (Addr req))
               else holdingRegs h ! k)) \<and>
         r = res @ map (\<lambda>j. holdingRegs h' ! (unat (Addr req) + j)) [i ..< unat (Quantity req)]"
  using assms
proof (induction h req i res rule: holding_loop.induct)
  case (1 h req i res)
  show ?case
  proof (cases "i < unat (Quantity req)")
    case False
    with "1.prems" have "h' = h" and "r = res"
      by (simp_all add: holding_loop.simps [of h req i res])
    with False show ?thesis by auto
  next
    case True
    obtain h1 r1 where b: "holding_body h req i = (h1, r1)" by (cases "holding_body h req i")
    note f = holding_body_frame [OF b]
    show ?thesis
    proof (cases r1)
      case (Inl e)
      with True b "1.prems" show ?thesis
        by (simp add: holding_loop.simps [of h req i res])
    next
      case (Inr v)
      with True b "1.prems" have l: "holding_loop h1 req (i + 1) (res @ [v]) = (h', Inr r)"
        by (simp add: holding_loop.simps [of h req i res])
      from f "1.prems" have r1: "unat (Addr req) + unat (Quantity req) \<le> length (holdingRegs h1)"
        by simp
      from "1.IH" [OF True b [symmetric] Inr l r1] f
      have ih: "\<And>k. k < length (holdingRegs h) \<Longrightarrow>
            holdingRegs h' ! k =
              (if unat (Addr req) + (i + 1) \<le> k \<and> k < unat (Addr req) + unat (Quantity req) \<and>
                  IsWrite req \<and> (word_of_nat k :: uint16) \<noteq> CounterAddress (config h)
               then Args req ! (k - unat (Addr req))
               else holdingRegs h1 ! k)"
        and rr: "r = (res @ [v]) @
                   map (\<lambda>j. holdingRegs h' ! (unat (Addr req) + j)) [i + 1 ..< unat (Quantity req)]"
        by simp_all
      from b Inr have br: "holdingRegs h1 =
           (if IsWrite req \<and>
               (word_of_nat (unat (Addr req) + i) :: uint16) \<noteq> CounterAddress (config h)
            then (holdingRegs h)[unat (Addr req) + i := Args req ! i]
            else holdingRegs h)"
        and bv: "v = holdingRegs h1 ! (unat (Addr req) + i)"
        using holding_body_result [of h req i h1 v] by simp_all
      from True "1.prems" have ir: "unat (Addr req) + i < length (holdingRegs h)" by simp
      have tbl: "\<forall>k < length (holdingRegs h).
            holdingRegs h' ! k =
              (if unat (Addr req) + i \<le> k \<and> k < unat (Addr req) + unat (Quantity req) \<and>
                  IsWrite req \<and> (word_of_nat k :: uint16) \<noteq> CounterAddress (config h)
               then Args req ! (k - unat (Addr req))
               else holdingRegs h ! k)"
      proof (intro allI impI)
        fix k assume k: "k < length (holdingRegs h)"
        show "holdingRegs h' ! k =
              (if unat (Addr req) + i \<le> k \<and> k < unat (Addr req) + unat (Quantity req) \<and>
                  IsWrite req \<and> (word_of_nat k :: uint16) \<noteq> CounterAddress (config h)
               then Args req ! (k - unat (Addr req))
               else holdingRegs h ! k)"
        proof (cases "k = unat (Addr req) + i")
          case True
          with ih [OF k] br ir \<open>i < unat (Quantity req)\<close> show ?thesis by simp
        next
          case False
          then have "(unat (Addr req) + i \<le> k) = (unat (Addr req) + (i + 1) \<le> k)" by auto
          with ih [OF k] br False show ?thesis by simp
        qed
      qed
      from ih [OF ir] bv have "v = holdingRegs h' ! (unat (Addr req) + i)" by simp
      with rr True have "r = res @ map (\<lambda>j. holdingRegs h' ! (unat (Addr req) + j))
                                     [i ..< unat (Quantity req)]"
        by (simp add: upt_conv_Cons)
      with tbl show ?thesis by blast
    qed
  qed
qed

lemma coils_body_result:
  assumes "coils_body h req i = (h1, Inr v)"
  shows "coils h1 =
           (if IsWrite req then (coils h)[unat (Addr req) + i := Args req ! i] else coils h) \<and>
         v = coils h1 ! (unat (Addr req) + i)"
  using assms by (auto simp: coils_body_def Let_def split: if_splits)

lemma coils_loop_result:
  assumes "coils_loop h req i res = (h', Inr r)"
    and "unat (Addr req) + unat (Quantity req) \<le> length (coils h)"
  shows "(\<forall>k < length (coils h).
            coils h' ! k =
              (if unat (Addr req) + i \<le> k \<and> k < unat (Addr req) + unat (Quantity req) \<and>
                  IsWrite req
               then Args req ! (k - unat (Addr req))
               else coils h ! k)) \<and>
         r = res @ map (\<lambda>j. coils h' ! (unat (Addr req) + j)) [i ..< unat (Quantity req)]"
  using assms
proof (induction h req i res rule: coils_loop.induct)
  case (1 h req i res)
  show ?case
  proof (cases "i < unat (Quantity req)")
    case False
    with "1.prems" have "h' = h" and "r = res"
      by (simp_all add: coils_loop.simps [of h req i res])
    with False show ?thesis by auto
  next
    case True
    obtain h1 r1 where b: "coils_body h req i = (h1, r1)" by (cases "coils_body h req i")
    note f = coils_body_frame [OF b]
    show ?thesis
    proof (cases r1)
      case (Inl e)
      with True b "1.prems" show ?thesis
        by (simp add: coils_loop.simps [of h req i res])
    next
      case (Inr v)
      with True b "1.prems" have l: "coils_loop h1 req (i + 1) (res @ [v]) = (h', Inr r)"
        by (simp add: coils_loop.simps [of h req i res])
      from f "1.prems" have r1: "unat (Addr req) + unat (Quantity req) \<le> length (coils h1)"
        by simp
      from "1.IH" [OF True b [symmetric] Inr l r1] f
      have ih: "\<And>k. k < length (coils h) \<Longrightarrow>
            coils h' ! k =
              (if unat (Addr req) + (i + 1) \<le> k \<and> k < unat (Addr req) + unat (Quantity req) \<and>
                  IsWrite req
               then Args req ! (k - unat (Addr req))
               else coils h1 ! k)"
        and rr: "r = (res @ [v]) @
                   map (\<lambda>j. coils h' ! (unat (Addr req) + j)) [i + 1 ..< unat (Quantity req)]"
        by simp_all
      from b Inr have br: "coils h1 =
           (if IsWrite req then (coils h)[unat (Addr req) + i := Args req ! i] else coils h)"
        and bv: "v = coils h1 ! (unat (Addr req) + i)"
        using coils_body_result [of h req i h1 v] by simp_all
      from True "1.prems" have ir: "unat (Addr req) + i < length (coils h)" by simp
      have tbl: "\<forall>k < length (coils h).
            coils h' ! k =
              (if unat (Addr req) + i \<le> k \<and> k < unat (Addr req) + unat (Quantity req) \<and>
                  IsWrite req
               then Args req ! (k - unat (Addr req))
               else coils h ! k)"
      proof (intro allI impI)
        fix k assume k: "k < length (coils h)"
        show "coils h' ! k =
              (if unat (Addr req) + i \<le> k \<and> k < unat (Addr req) + unat (Quantity req) \<and>
                  IsWrite req
               then Args req ! (k - unat (Addr req))
               else coils h ! k)"
        proof (cases "k = unat (Addr req) + i")
          case True
          with ih [OF k] br ir \<open>i < unat (Quantity req)\<close> show ?thesis by simp
        next
          case False
          then have "(unat (Addr req) + i \<le> k) = (unat (Addr req) + (i + 1) \<le> k)" by auto
          with ih [OF k] br False show ?thesis by simp
        qed
      qed
      from ih [OF ir] bv have "v = coils h' ! (unat (Addr req) + i)" by simp
      with rr True have "r = res @ map (\<lambda>j. coils h' ! (unat (Addr req) + j))
                                     [i ..< unat (Quantity req)]"
        by (simp add: upt_conv_Cons)
      with tbl show ?thesis by blast
    qed
  qed
qed

text \<open>What a handler call that returns normally leaves behind and returns.\<close>

lemma HandleHoldingRegisters_returns:
  assumes "UnitId q = UnitID (config h)"
    and "unat (Addr q) + unat (Quantity q) \<le> length (holdingRegs h)"
    and "snd (HandleHoldingRegisters h q) = Inr r"
  shows "config (fst (HandleHoldingRegisters h q)) = config h"
    and "length (holdingRegs (fst (HandleHoldingRegisters h q))) = length (holdingRegs h)"
    and "\<And>k. k < length (holdingRegs h) \<Longrightarrow>
            holdingRegs (fst (HandleHoldingRegisters h q)) ! k =
              (if unat (Addr q) \<le> k \<and> k < unat (Addr q) + unat (Quantity q) \<and>
                  IsWrite q \<and> (word_of_nat k :: uint16) \<noteq> CounterAddress (config h)
               then Args q ! (k - unat (Addr q))
               else holdingRegs h ! k)"
    and "r = map (\<lambda>j. holdingRegs (fst (HandleHoldingRegisters h q)) ! (unat (Addr q) + j))
               [0 ..< unat (Quantity q)]"
proof -
  let ?h = "count_request h"
  obtain h' x where l: "holding_loop ?h q 0 [] = (h', x)" by (cases "holding_loop ?h q 0 []")
  from assms(1,2) l have s: "HandleHoldingRegisters h q =
      (case x of Inl e \<Rightarrow> (h', Inl e)
               | Inr res \<Rightarrow> (log_call Debug ''Holding registers handled'' h', Inr res))"
    by (simp add: HandleHoldingRegisters_def count_request_def Let_def)
  with assms(3) have x: "x = Inr r" by (cases x) simp_all
  with s have f: "fst (HandleHoldingRegisters h q) = log_call Debug ''Holding registers handled'' h'"
    by simp
  from l x have l': "holding_loop ?h q 0 [] = (h', Inr r)" by simp
  from assms(2) have b: "unat (Addr q) + unat (Quantity q) \<le> length (holdingRegs ?h)"
    by (simp add: count_request_def)
  note fr = holding_loop_frame [OF l']
  note res = holding_loop_result [OF l' b]
  from fr f show "config (fst (HandleHoldingRegisters h q)) = config h"
    by (simp add: log_call_def count_request_def)
  from fr f show "length (holdingRegs (fst (HandleHoldingRegisters h q))) = length (holdingRegs h)"
    by (simp add: log_call_def count_request_def)
  from res f show "r = map (\<lambda>j. holdingRegs (fst (HandleHoldingRegisters h q)) ! (unat (Addr q) + j))
               [0 ..< unat (Quantity q)]"
    by (simp add: log_call_def)
  fix k assume "k < length (holdingRegs h)"
  with res f show "holdingRegs (fst (HandleHoldingRegisters h q)) ! k =
              (if unat (Addr q) \<le> k \<and> k < unat (Addr q) + unat (Quantity q) \<and>
                  IsWrite q \<and> (word_of_nat k :: uint16) \<noteq> CounterAddress (config h)
               then Args q ! (k - unat (Addr q))
               else holdingRegs h ! k)"
    by (simp add: log_call_def count_request_def)
qed

lemma HandleCoils_returns:
  assumes "UnitId q = UnitID (config h)"
    and "unat (Addr q) + unat (Quantity q) \<le> length (coils h)"
    and "snd (HandleCoils h q) = Inr r"
  shows "config (fst (HandleCoils h q)) = config h"
    and "length (coils (fst (HandleCoils h q))) = length (coils h)"
    and "\<And>k. k < length (coils h) \<Longrightarrow>
            coils (fst (HandleCoils h q)) ! k =
              (if unat (Addr q) \<le> k \<and> k < unat (Addr q) + unat (Quantity q) \<and> IsWrite q
               then Args q ! (k - unat (Addr q))
               else coils h ! k)"
    and "r = map (\<lambda>j. coils (fst (HandleCoils h q)) ! (unat (Addr q) + j))
               [0 ..< unat (Quantity q)]"
proof -
  let ?h = "count_request h"
  obtain h' x where l: "coils_loop ?h q 0 [] = (h', x)" by (cases "coils_loop ?h q 0 []")
  from assms(1,2) l have s: "HandleCoils h q = (h', x)"
    by (simp add: HandleCoils_def count_request_def Let_def)
  with assms(3) have x: "x = Inr r" by simp
  from s have f: "fst (HandleCoils h q) = h'" by simp
  from l x have l': "coils_loop ?h q 0 [] = (h', Inr r)" by simp
  from assms(2) have b: "unat (Addr q) + unat (Quantity q) \<le> length (coils ?h)"
    by (simp add: count_request_def)
  note fr = coils_loop_frame [OF l']
  note res = coils_loop_result [OF l' b]
  from fr f show "config (fst (HandleCoils h q)) = config h"
    by (simp add: count_request_def)
  from fr f show "length (coils (fst (HandleCoils h q))) = length (coils h)"
    by (simp add: count_request_def)
  from res f show "r = map (\<lambda>j. coils (fst (HandleCoils h q)) ! (unat (Addr q) + j))
               [0 ..< unat (Quantity q)]"
    by simp
  fix k assume "k < length (coils h)"
  with res f show "coils (fst (HandleCoils h q)) ! k =
              (if unat (Addr q) \<le> k \<and> k < unat (Addr q) + unat (Quantity q) \<and> IsWrite q
               then Args q ! (k - unat (Addr q))
               else coils h ! k)"
    by (simp add: count_request_def)
qed

lemma replicate_update_same: "(replicate n x)[i := x] = replicate n x"
proof (rule nth_equalityI)
  show "length ((replicate n x)[i := x]) = length (replicate n x)" by simp
next
  fix j assume "j < length ((replicate n x)[i := x])"
  then have "j < n" by simp
  then show "(replicate n x)[i := x] ! j = replicate n x ! j"
    by (cases "i = j") simp_all
qed

lemma wide_handler_constructed: "NewModbusHandler wide_config [] 0 = Inr wide_handler"
  by (simp add: NewModbusHandler_def wide_config_def wide_handler_def log_call_def
      replicate_update_same)

text \<open>
  A write of any quantity with a value for every position, followed by a read of any
  range, both with the configured unit id and within the table. At every address \<open>k\<close>
  covered by both, the read returns the value written for \<open>k\<close>, unless the 16 low
  bits of \<open>k\<close> are the counter address: then it returns what the register held
  before the write. Coils have no protected address.
\<close>

lemma holding_round_trip:
  assumes wu: "UnitId w = UnitID (config h)"
    and wr: "unat (Addr w) + unat (Quantity w) \<le> length (holdingRegs h)"
    and ww: "IsWrite w"
    and wa: "unat (Quantity w) \<le> length (Args w)"
    and du: "UnitId d = UnitID (config h)"
    and dr: "unat (Addr d) + unat (Quantity d) \<le> length (holdingRegs h)"
    and dw: "\<not> IsWrite d"
    and kw: "unat (Addr w) \<le> k" "k < unat (Addr w) + unat (Quantity w)"
    and kd: "unat (Addr d) \<le> k" "k < unat (Addr d) + unat (Quantity d)"
  shows "\<exists>rw rd.
           snd (HandleHoldingRegisters h w) = Inr rw \<and>
           snd (HandleHoldingRegisters (fst (HandleHoldingRegisters h w)) d) = Inr rd \<and>
           length rd = unat (Quantity d) \<and>
           rd ! (k - unat (Addr d)) =
             (if (word_of_nat k :: uint16) \<noteq> CounterAddress (config h)
              then Args w ! (k - unat (Addr w))
              else holdingRegs h ! k)"
proof -
  let ?h = "fst (HandleHoldingRegisters h w)"
  let ?g = "fst (HandleHoldingRegisters ?h d)"
  from wa have "\<not> (\<exists>i. length (Args w) \<le> i \<and> i < unat (Quantity w) \<and>
               (word_of_nat (unat (Addr w) + i) :: uint16) \<noteq> CounterAddress (config h))"
    by auto
  with HandleHoldingRegisters_checked [OF wu wr]
  obtain rw where rw: "snd (HandleHoldingRegisters h w) = Inr rw" by blast
  note w = HandleHoldingRegisters_returns [OF wu wr rw]
  from du w(1) have du': "UnitId d = UnitID (config ?h)" by simp
  from dr w(2) have dr': "unat (Addr d) + unat (Quantity d) \<le> length (holdingRegs ?h)" by simp
  from HandleHoldingRegisters_checked [OF du' dr'] dw
  obtain rd where rd: "snd (HandleHoldingRegisters ?h d) = Inr rd" by blast
  note d = HandleHoldingRegisters_returns [OF du' dr' rd]
  from kd dr have kl: "k < length (holdingRegs h)" by simp
  with w(2) have kl': "k < length (holdingRegs ?h)" by simp
  from d(3) [OF kl'] dw have g: "holdingRegs ?g ! k = holdingRegs ?h ! k" by simp
  from d(4) have len: "length rd = unat (Quantity d)" by simp
  from kd have i: "k - unat (Addr d) < unat (Quantity d)" by simp
  from kd have "unat (Addr d) + (k - unat (Addr d)) = k" by simp
  with d(4) i have "rd ! (k - unat (Addr d)) = holdingRegs ?g ! k" by simp
  with g w(3) [OF kl] kw ww
  have "rd ! (k - unat (Addr d)) =
             (if (word_of_nat k :: uint16) \<noteq> CounterAddress (config h)
              then Args w ! (k - unat (Addr w))
              else holdingRegs h ! k)"
    by simp
  with rw rd len show ?thesis by blast
qed

lemma coils_round_trip:
  assumes wu: "UnitId w = UnitID (config h)"
    and wr: "unat (Addr w) + unat (Quantity w) \<le> length (coils h)"
    and ww: "IsWrite w"
    and wa: "unat (Quantity w) \<le> length (Args w)"
    and du: "UnitId d = UnitID (config h)"
    and dr: "unat (Addr d) + unat (Quantity d) \<le> length (coils h)"
    and dw: "\<not> IsWrite d"
    and kw: "unat (Addr w) \<le> k" "k < unat (Addr w) + unat (Quantity w)"
    and kd: "unat (Addr d) \<le> k" "k < unat (Addr d) + unat (Quantity d)"
  shows "\<exists>rw rd.
           snd (HandleCoils h w) = Inr rw \<and>
           snd (HandleCoils (fst (HandleCoils h w)) d) = Inr rd \<and>
           length rd = unat (Quantity d) \<and>
           rd ! (k - unat (Addr d)) = Args w ! (k - unat (Addr w))"
proof -
  let ?h = "fst (HandleCoils h w)"
  let ?g = "fst (HandleCoils ?h d)"
  from HandleCoils_checked [OF wu wr] wa
  obtain rw where rw: "snd (HandleCoils h w) = Inr rw" by auto
  note w = HandleCoils_returns [OF wu wr rw]
  from du w(1) have du': "UnitId d = UnitID (config ?h)" by simp
  from dr w(2) have dr': "unat (Addr d) + unat (Quantity d) \<le> length (coils ?h)" by simp
  from HandleCoils_checked [OF du' dr'] dw
  obtain rd where rd: "snd (HandleCoils ?h d) = Inr rd" by blast
  note d = HandleCoils_returns [OF du' dr' rd]
  from kd dr have kl: "k < length (coils h)" by simp
  with w(2) have kl': "k < length (coils ?h)" by simp
  from d(3) [OF kl'] dw have g: "coils ?g ! k = coils ?h ! k" by simp
  from d(4) have len: "length rd = unat (Quantity d)" by simp
  from kd have i: "k - unat (Addr d) < unat (Quantity d)" by simp
  from kd have "unat (Addr d) + (k - unat (Addr d)) = k" by simp
  with d(4) i have "rd ! (k - unat (Addr d)) = coils ?g ! k" by simp
  with g w(3) [OF kl] kw ww
  have "rd ! (k - unat (Addr d)) = Args w ! (k - unat (Addr w))" by simp
  with rw rd len show ?thesis by blast
qed

lemma truncation_exact:
  assumes "k < 65536"
  shows "((word_of_nat k :: uint16) = a) = (k = unat a)"
proof -
  from assms have "unat (word_of_nat k :: uint16) = k" by (simp add: unat_of_nat)
  then show ?thesis by (metis of_nat_unat ucast_id)
qed

text \<open>
  In a table of at most 65536 slots the 16 low bits of an address are the address, and
  the only register a write leaves untouched is the one at the counter address.
\<close>

lemma holding_round_trip_small:
  assumes "length (holdingRegs h) \<le> 65536"
    and wu: "UnitId w = UnitID (config h)"
    and wr: "unat (Addr w) + unat (Quantity w) \<le> length (holdingRegs h)"
    and ww: "IsWrite w"
    and wa: "unat (Quantity w) \<le> length (Args w)"
    and du: "UnitId d = UnitID (config h)"
    and dr: "unat (Addr d) + unat (Quantity d) \<le> length (holdingRegs h)"
    and dw: "\<not> IsWrite d"
    and kw: "unat (Addr w) \<le> k" "k < unat (Addr w) + unat (Quantity w)"
    and kd: "unat (Addr d) \<le> k" "k < unat (Addr d) + unat (Quantity d)"
  shows "\<exists>rw rd.
           snd (HandleHoldingRegisters h w) = Inr rw \<and>
           snd (HandleHoldingRegisters (fst (HandleHoldingRegisters h w)) d) = Inr rd \<and>
           length rd = unat (Quantity d) \<and>
           rd ! (k - unat (Addr d)) =
             (if k \<noteq> unat (CounterAddress (config h))
              then Args w ! (k - unat (Addr w))
              else holdingRegs h ! k)"
proof -
  from assms(1) kw wr have "k < 65536" by simp
  from truncation_exact [OF this, of "CounterAddress (config h)"]
       holding_round_trip [OF wu wr ww wa du dr dw kw kd]
  show ?thesis by simp
qed

lemma upt_two: "[0 ..< (2 :: nat)] = [0, 1]"
  by code_simp

lemma wide_write_result:
  "snd (HandleHoldingRegisters wide_handler wide_write) = Inr [7, 0] \<and>
   config (fst (HandleHoldingRegisters wide_handler wide_write)) = wide_config \<and>
   length (holdingRegs (fst (HandleHoldingRegisters wide_handler wide_write))) = 65537 \<and>
   holdingRegs (fst (HandleHoldingRegisters wide_handler wide_write)) ! 65535 = 7 \<and>
   holdingRegs (fst (HandleHoldingRegisters wide_handler wide_write)) ! 65536 = 0"
proof -
  have u: "UnitId wide_write = UnitID (config wide_handler)"
    by (simp add: wide_write_def wide_handler_def wide_config_def)
  have r: "unat (Addr wide_write) + unat (Quantity wide_write) \<le> length (holdingRegs wide_handler)"
    by (simp add: wide_write_def wide_handler_def)
  have "\<not> (\<exists>i. length (Args wide_write) \<le> i \<and> i < unat (Quantity wide_write) \<and>
               (word_of_nat (unat (Addr wide_write) + i) :: uint16)
                 \<noteq> CounterAddress (config wide_handler))"
    by (simp add: wide_write_def)
  with HandleHoldingRegisters_checked [OF u r]
  obtain rw where rw: "snd (HandleHoldingRegisters wide_handler wide_write) = Inr rw" by blast
  note w = HandleHoldingRegisters_returns [OF u r rw]
  have k1: "(65535 :: nat) < length (holdingRegs wide_handler)"
    and k2: "(65536 :: nat) < length (holdingRegs wide_handler)"
    by (simp_all add: wide_handler_def)
  from w(3) [OF k1]
  have t1: "holdingRegs (fst (HandleHoldingRegisters wide_handler wide_write)) ! 65535 = 7"
    by (simp add: wide_write_def wide_handler_def wide_config_def)
  from w(3) [OF k2]
  have t2: "holdingRegs (fst (HandleHoldingRegisters wide_handler wide_write)) ! 65536 = 0"
    by (simp add: wide_write_def wide_handler_def wide_config_def)
  have "unat (Quantity wide_write) = 2" by (simp add: wide_write_def)
  with upt_two have q: "[0 ..< unat (Quantity wide_write)] = [0, 1]" by simp
  have a: "unat (Addr wide_write) = 65535" by (simp add: wide_write_def)
  from w(4) q a t1 t2 have "rw = [7, 0]" by simp
  with rw w(1) w(2) t1 t2 show ?thesis by (simp add: wide_handler_def)
qed

text \<open>
  C1 on the table of 65537 slots with the counter at address 0. Address 65536 is inside
  the table and is not the counter address, and the write carries the value 9 for it.
  The conversion \<open>uint16(addr)\<close> of 65536 is 0, the counter address, so the handler
  skips the store: the write returns 0 for that register, and so does the read that
  follows, where a write followed by a read should return 9.
\<close>

theorem aliased_write_dropped:
  "NewModbusHandler wide_config [] 0 = Inr wide_handler \<and>
   unat (Addr wide_write) + 1 < length (holdingRegs wide_handler) \<and>
   unat (Addr wide_write) + 1 \<noteq> unat (CounterAddress (config wide_handler)) \<and>
   Args wide_write ! 1 = 9 \<and>
   snd (HandleHoldingRegisters wide_handler wide_write) = Inr [7, 0] \<and>
   snd (HandleHoldingRegisters (fst (HandleHoldingRegisters wide_handler wide_write)) wide_read)
     = Inr [7, 0]"
proof -
  let ?h = "fst (HandleHoldingRegisters wide_handler wide_write)"
  note ww = wide_write_result
  have u: "UnitId wide_read = UnitID (config ?h)"
    using ww by (simp add: wide_read_def wide_config_def)
  have r: "unat (Addr wide_read) + unat (Quantity wide_read) \<le> length (holdingRegs ?h)"
    using ww by (simp add: wide_read_def)
  have nw: "\<not> IsWrite wide_read" by (simp add: wide_read_def)
  with HandleHoldingRegisters_checked [OF u r]
  obtain rd where rd: "snd (HandleHoldingRegisters ?h wide_read) = Inr rd" by blast
  note d = HandleHoldingRegisters_returns [OF u r rd]
  from ww have k1: "(65535 :: nat) < length (holdingRegs ?h)"
    and k2: "(65536 :: nat) < length (holdingRegs ?h)"
    by simp_all
  from d(3) [OF k1] nw ww
  have t1: "holdingRegs (fst (HandleHoldingRegisters ?h wide_read)) ! 65535 = 7" by simp
  from d(3) [OF k2] nw ww
  have t2: "holdingRegs (fst (HandleHoldingRegisters ?h wide_read)) ! 65536 = 0" by simp
  have "unat (Quantity wide_read) = 2" by (simp add: wide_read_def)
  with upt_two have q: "[0 ..< unat (Quantity wide_read)] = [0, 1]" by simp
  have a: "unat (Addr wide_read) = 65535" by (simp add: wide_read_def)
  from d(4) q a t1 t2 have "rd = [7, 0]" by simp
  with rd ww wide_handler_constructed show ?thesis
    by (simp add: wide_write_def wide_handler_def wide_config_def)
qed

section \<open>Startup with retries\<close>

lemma attempts_projection: "attempts (attempts_and_waits tr) = attempts tr"
proof -
  have "\<And>e. (is_attempt_or_wait e \<and> is_attempt e) = is_attempt e"
    by (case_tac e) simp_all
  then show ?thesis by (simp add: attempts_def attempts_and_waits_def)
qed

lemma waits_projection: "waits (attempts_and_waits tr) = waits tr"
proof -
  have "\<And>e. (is_attempt_or_wait e \<and> is_wait e) = is_wait e"
    by (case_tac e) simp_all
  then show ?thesis by (simp add: waits_def attempts_and_waits_def)
qed

lemma retry_pattern_counts:
  "attempts (concat (replicate k [Waited d, StartServer])) = k \<and>
   waits (concat (replicate k [Waited d, StartServer])) = k"
  by (induction k) (simp_all add: attempts_def waits_def)

lemma startServer_trace:
  "attempts_and_waits (fst (startServer env cfg tr)) = attempts_and_waits tr"
  by (simp add: startServer_def attempts_and_waits_def Let_def)

lemma Start_loop_retry:
  assumes nc: "\<And>tr. \<not> ctx_done env tr" "\<And>tr d. \<not> ctx_done_within env tr d"
    and fl: "\<And>tr. fails (snd (startServer env cfg tr))"
  shows "0 < rc \<Longrightarrow> int rc \<le> MaxRetries (Server cfg) \<Longrightarrow> nat (MaxRetries (Server cfg)) - rc = k \<Longrightarrow>
     snd (Start_loop env cfg rc tr) = ReturnsErr (MaxRetriesExceeded (MaxRetries (Server cfg))) \<and>
     attempts_and_waits (fst (Start_loop env cfg rc tr)) =
       attempts_and_waits tr @
       concat (replicate k [Waited (RetryDelay (Server cfg)), StartServer])"
proof (induction k arbitrary: rc tr)
  case 0
  then have "int rc \<ge> MaxRetries (Server cfg)" by linarith
  with 0 nc show ?case by (simp add: Start_loop.simps [of env cfg rc tr])
next
  case (Suc k)
  then have lt: "\<not> int rc \<ge> MaxRetries (Server cfg)" by linarith
  let ?tr1 = "tr @ [Logged Warn ''Retrying server start'', Waited (RetryDelay (Server cfg)),
                    StartServer]"
  obtain tr2 out where s: "startServer env cfg ?tr1 = (tr2, out)"
    by (cases "startServer env cfg ?tr1")
  with fl [of ?tr1] obtain e where out: "out = ReturnsErr e"
    by (cases out) (simp_all add: fails_def)
  from startServer_trace [of env cfg ?tr1] s
  have t2: "attempts_and_waits tr2 =
              attempts_and_waits tr @ [Waited (RetryDelay (Server cfg)), StartServer]"
    by (simp add: attempts_and_waits_def)
  from Suc.prems lt s out nc
  have u: "Start_loop env cfg rc tr =
             Start_loop env cfg (rc + 1) (tr2 @ [Logged Error ''Server start failed''])"
    by (simp add: Start_loop.simps [of env cfg rc tr])
  from Suc.prems lt have "0 < rc + 1" "int (rc + 1) \<le> MaxRetries (Server cfg)"
    "nat (MaxRetries (Server cfg)) - (rc + 1) = k"
    by linarith+
  from Suc.IH [OF this, of "tr2 @ [Logged Error ''Server start failed'']"] u t2
  show ?case by (simp add: attempts_and_waits_def)
qed

text \<open>
  C6. When the context is never cancelled, every call of \<open>startServer\<close> returns an
  error, and the configured maximum \<open>m\<close> of retries is at least 1, \<open>Start\<close>
  returns the error that the maximum of retries is exceeded. Its calls of
  \<open>startServer\<close> and its completed waits are, in order, one call followed by
  \<open>m - 1\<close> times a wait of the retry delay and a call: \<open>m\<close> calls, \<open>m - 1\<close>
  waits, none before the first call.
\<close>

theorem bounded_retries:
  assumes "\<And>tr. \<not> ctx_done env tr" and "\<And>tr d. \<not> ctx_done_within env tr d"
    and "\<And>tr. fails (snd (startServer env cfg tr))"
    and "1 \<le> MaxRetries (Server cfg)"
  shows "snd (Start env cfg) = ReturnsErr (MaxRetriesExceeded (MaxRetries (Server cfg))) \<and>
         attempts_and_waits (fst (Start env cfg)) =
           StartServer #
           concat (replicate (nat (MaxRetries (Server cfg)) - 1)
                     [Waited (RetryDelay (Server cfg)), StartServer]) \<and>
         attempts (fst (Start env cfg)) = nat (MaxRetries (Server cfg)) \<and>
         waits (fst (Start env cfg)) = nat (MaxRetries (Server cfg)) - 1"
proof -
  obtain tr2 out where s: "startServer env cfg [StartServer] = (tr2, out)"
    by (cases "startServer env cfg [StartServer]")
  with assms(3) [of "[StartServer]"] obtain e where out: "out = ReturnsErr e"
    by (cases out) (simp_all add: fails_def)
  from startServer_trace [of env cfg "[StartServer]"] s
  have t2: "attempts_and_waits tr2 = [StartServer]"
    by (simp add: attempts_and_waits_def)
  from s out assms(1)
  have u: "Start env cfg = Start_loop env cfg 1 (tr2 @ [Logged Error ''Server start failed''])"
    by (simp add: Start_def Start_loop.simps [of env cfg 0 "[]"])
  from assms(4) have "0 < (1 :: nat)" "int 1 \<le> MaxRetries (Server cfg)" by simp_all
  from Start_loop_retry [OF assms(1) assms(2) assms(3) this refl,
      of "tr2 @ [Logged Error ''Server start failed'']"] u t2
  have r: "snd (Start env cfg) = ReturnsErr (MaxRetriesExceeded (MaxRetries (Server cfg)))"
    and a: "attempts_and_waits (fst (Start env cfg)) =
           StartServer #
           concat (replicate (nat (MaxRetries (Server cfg)) - 1)
                     [Waited (RetryDelay (Server cfg)), StartServer])"
    by (simp_all add: attempts_and_waits_def)
  from assms(4) have m: "Suc (nat (MaxRetries (Server cfg)) - 1) = nat (MaxRetries (Server cfg))"
    by simp
  from a retry_pattern_counts [of "nat (MaxRetries (Server cfg)) - 1" "RetryDelay (Server cfg)"]
  have "attempts (attempts_and_waits (fst (Start env cfg))) = Suc (nat (MaxRetries (Server cfg)) - 1)"
    and "waits (attempts_and_waits (fst (Start env cfg))) = nat (MaxRetries (Server cfg)) - 1"
    by (simp_all add: attempts_def waits_def)
  with m have "attempts (fst (Start env cfg)) = nat (MaxRetries (Server cfg))"
    and "waits (fst (Start env cfg)) = nat (MaxRetries (Server cfg)) - 1"
    by (simp_all add: attempts_projection waits_projection)
  with r a show ?thesis by simp
qed

theorem bounded_retries_witness:
  "(\<forall>tr. \<not> ctx_done failing_transport tr) \<and>
   (\<forall>tr d. \<not> ctx_done_within failing_transport tr d) \<and>
   (\<forall>tr. fails (snd (startServer failing_transport three_retries_config tr))) \<and>
   1 \<le> MaxRetries (Server three_retries_config) \<and>
   snd (Start failing_transport three_retries_config) = ReturnsErr (MaxRetriesExceeded 3) \<and>
   attempts_and_waits (fst (Start failing_transport three_retries_config)) =
     [StartServer, Waited 1, StartServer, Waited 1, StartServer] \<and>
   attempts (fst (Start failing_transport three_retries_config)) = 3 \<and>
   waits (fst (Start failing_transport three_retries_config)) = 2"
proof -
  have c: "\<And>tr. \<not> ctx_done failing_transport tr"
    and w: "\<And>tr d. \<not> ctx_done_within failing_transport tr d"
    and f: "\<And>tr. fails (snd (startServer failing_transport three_retries_config tr))"
    by (simp_all add: failing_transport_def startServer_def fails_def Let_def)
  have m: "1 \<le> MaxRetries (Server three_retries_config)"
    and m3: "MaxRetries (Server three_retries_config) = 3"
    and d: "RetryDelay (Server three_retries_config) = 1"
    by (simp_all add: three_retries_config_def)
  have p: "concat (replicate (nat 3 - 1) [Waited 1, StartServer])
             = [Waited 1, StartServer, Waited 1, StartServer]"
    by (simp add: numeral_2_eq_2)
  from bounded_retries [of failing_transport three_retries_config, OF c w f m] c w f m m3 d p
  show ?thesis by simp
qed

end
